theory Spec2Isabelle
  imports Complex_Main
begin

section \<open>Errors\<close>

text \<open>
  Python exceptions are values. A mutating method that raises leaves the object in the
  state it had reached, so a method returns the pair of an optional error and the state.
\<close>

datatype error = IndexError | ValueError | InsufficientDataError | ShapeMismatchError
  | ApproximatorError | ZeroDivisionError

section \<open>Python and numpy indexing\<close>

text \<open>
  \<open>xs[g]\<close> on a Python list of length \<open>n\<close>: a negative index counts from the end, an index
  outside \<open>-n..n-1\<close> raises \<open>IndexError\<close> (\<open>None\<close> here).
\<close>

definition py_index :: "nat \<Rightarrow> int \<Rightarrow> nat option" where
  "py_index n g =
     (if 0 \<le> g \<and> g < int n then Some (nat g)
      else if - int n \<le> g \<and> g < 0 then Some (nat (int n + g))
      else None)"

text \<open>\<open>np.unique\<close>: the distinct values in ascending order.\<close>

definition np_unique :: "int list \<Rightarrow> int list" where
  "np_unique s = sort (remdups s)"

text \<open>\<open>np.argwhere(s == g).ravel()\<close>: the positions of \<open>g\<close> in \<open>s\<close>, ascending.\<close>

definition np_argwhere_eq :: "int list \<Rightarrow> int \<Rightarrow> nat list" where
  "np_argwhere_eq s g = filter (\<lambda>k. s ! k = g) [0..<length s]"

text \<open>
  \<open>xs[start:stop]\<close> for \<open>0 \<le> start\<close>, \<open>0 \<le> stop\<close>: the slice is clipped to the array.
  Assigning to a slice needs a value of the slice's shape; the model asks for exactly that
  shape (numpy's broadcasting of an axis of size 1 is not modelled) and reports any other
  shape as numpy's \<open>ValueError\<close> (\<open>None\<close> here).
\<close>

definition get_slice :: "nat \<Rightarrow> nat \<Rightarrow> 'a list \<Rightarrow> 'a list" where
  "get_slice start stop xs = take (stop - start) (drop start xs)"

definition set_slice :: "nat \<Rightarrow> nat \<Rightarrow> 'a list \<Rightarrow> 'a list \<Rightarrow> 'a list option" where
  "set_slice start stop vs xs =
     (if length vs = length (get_slice start stop xs)
      then Some (take start xs @ vs @ drop (max start stop) xs)
      else None)"

text \<open>\<open>row[:k] = v\<close> on one row, and \<open>m[start:stop, :k] = vs\<close> on a two-dimensional array.\<close>

definition set_cols :: "nat \<Rightarrow> 'a list \<Rightarrow> 'a list \<Rightarrow> 'a list" where
  "set_cols k v row = v @ drop k row"

definition set_block :: "nat \<Rightarrow> nat \<Rightarrow> nat \<Rightarrow> 'a list list \<Rightarrow> 'a list list
    \<Rightarrow> 'a list list option" where
  "set_block start stop k vs m =
     (let old = get_slice start stop m
      in if list_all2 (\<lambda>v row. length v = min k (length row)) vs old
         then Some (take start m @ map2 (set_cols k) vs old @ drop (max start stop) m)
         else None)"

text \<open>
  The state scratch arrays are built by \<open>np.zeros((n, history_length) + shape).squeeze()\<close>.
  The model covers \<open>history_length = 1\<close> and a one-dimensional observation space
  \<open>shape = (w,)\<close> with a floating-point \<open>dtype\<close> (as the example script builds the agent);
  numbers are reals. \<open>squeeze\<close> drops every axis of size 1, so the array is a matrix only
  when \<open>n \<noteq> 1\<close> and \<open>w \<noteq> 1\<close>; otherwise it has fewer than two axes and indexing it with
  two indices raises \<open>IndexError\<close>.
\<close>

datatype ndarray = Arr1 "real list" | Arr2 "real list list"

definition np_zeros_squeeze :: "nat \<Rightarrow> nat \<Rightarrow> ndarray" where
  "np_zeros_squeeze n w =
     (if n = 1 \<or> w = 1 then Arr1 (replicate (n * w) 0)
      else Arr2 (replicate n (replicate w 0)))"

definition set_block_nd :: "nat \<Rightarrow> nat \<Rightarrow> nat \<Rightarrow> real list list \<Rightarrow> ndarray
    \<Rightarrow> error + ndarray" where
  "set_block_nd start stop k vs arr =
     (case arr of
        Arr1 v \<Rightarrow> Inl IndexError
      | Arr2 m \<Rightarrow> (case set_block start stop k vs m of
                    None \<Rightarrow> Inl ValueError
                  | Some m' \<Rightarrow> Inr (Arr2 m')))"

text \<open>
  Elementwise product and sum of two one-dimensional arrays; arrays of different lengths
  give numpy's \<open>ValueError\<close> (\<open>None\<close> here).
\<close>

definition np_mul :: "real list \<Rightarrow> real list \<Rightarrow> real list option" where
  "np_mul xs ys = (if length xs = length ys then Some (map2 (*) xs ys) else None)"

definition np_add :: "real list \<Rightarrow> real list \<Rightarrow> real list option" where
  "np_add xs ys = (if length xs = length ys then Some (map2 (+) xs ys) else None)"

text \<open>Statements run in order; the first one that raises ends the run.\<close>

fun run_steps :: "('s \<Rightarrow> error option \<times> 's) list \<Rightarrow> 's \<Rightarrow> error option \<times> 's" where
  "run_steps [] s = (None, s)"
| "run_steps (f # fs) s =
     (case f s of
        (None, s') \<Rightarrow> run_steps fs s'
      | (Some e, s') \<Rightarrow> (Some e, s'))"

section \<open>Transitions and the per-task replay buffer\<close>

text \<open>
  A transition \<open>d\<close> of a dataset: \<open>tr_task_id\<close> is \<open>d[0][0]\<close>, the task index that the
  multitask core puts in front of the observation; \<open>tr_state\<close> and \<open>tr_next_state\<close> are the
  observations of \<open>d[0]\<close> and \<open>d[3]\<close>; the other fields are \<open>d[1]\<close>, \<open>d[2]\<close>, \<open>d[4]\<close>, \<open>d[5]\<close>.
\<close>

record transition =
  tr_task_id :: int
  tr_state :: "real list"
  tr_action :: "real list"
  tr_reward :: real
  tr_next_state :: "real list"
  tr_absorbing :: bool
  tr_last :: bool

text \<open>
  Modelled from the spec: the class \<open>ReplayMemoryMulty\<close> of
  \<open>mushroom_rl_meta.replay_memory\<close> is not among the sources. Following section 4.1 of
  the specification, a buffer is an ordered store (oldest first) with a capacity
  \<open>rm_max_size\<close> and an initial-fill threshold \<open>rm_initial_size\<close>; \<open>add\<close> appends and evicts
  the oldest entries beyond the capacity; \<open>initialized\<close> holds once the stored count has
  reached the threshold; \<open>get n\<close> fails with \<open>InsufficientDataError\<close> before that and
  otherwise returns \<open>n\<close> stored transitions drawn with replacement. The draws come from the
  random source \<open>rnd\<close> (the \<open>j\<close>-th draw is entry \<open>rnd j mod count\<close>). The specification
  does not say what \<open>get\<close> does on an initialized but empty buffer; there is nothing to
  draw, which numpy's \<open>randint\<close> reports as \<open>ValueError\<close>. \<open>rm_gets\<close> counts the calls of
  \<open>get\<close>; it is not part of the buffer's data and only records that a call happened.
\<close>

record replay_memory =
  rm_entries :: "transition list"
  rm_initial_size :: nat
  rm_max_size :: nat
  rm_gets :: nat

definition rm_new :: "nat \<Rightarrow> nat \<Rightarrow> replay_memory" where
  "rm_new initial_size max_size =
     \<lparr>rm_entries = [], rm_initial_size = initial_size, rm_max_size = max_size, rm_gets = 0\<rparr>"

definition rm_initialized :: "replay_memory \<Rightarrow> bool" where
  "rm_initialized rm = (rm_initial_size rm \<le> length (rm_entries rm))"

definition rm_add :: "transition list \<Rightarrow> replay_memory \<Rightarrow> replay_memory" where
  "rm_add d rm =
     rm\<lparr>rm_entries :=
          drop (length (rm_entries rm @ d) - rm_max_size rm) (rm_entries rm @ d)\<rparr>"

definition rm_get :: "nat \<Rightarrow> (nat \<Rightarrow> nat) \<Rightarrow> replay_memory
    \<Rightarrow> (error + transition list) \<times> replay_memory" where
  "rm_get n rnd rm =
     (let rm' = rm\<lparr>rm_gets := Suc (rm_gets rm)\<rparr>
      in if \<not> rm_initialized rm then (Inl InsufficientDataError, rm')
         else if rm_entries rm = [] \<and> 0 < n then (Inl ValueError, rm')
         else (Inr (map (\<lambda>j. rm_entries rm ! (rnd j mod length (rm_entries rm))) [0..<n]),
               rm'))"

section \<open>Approximators\<close>

text \<open>
  An approximator holds the flat weight vector that \<open>get_weights\<close> returns and
  \<open>set_weights\<close> overwrites, the static partition of its parameters into shared ones
  (\<open>True\<close> in \<open>shared\<close>) and per-task ones, and the trainable flag of the shared subset.
\<close>

record approximator =
  weights :: "real list"
  shared :: "bool list"
  trainable :: bool

text \<open>
  Modelled from the spec: the networks' \<open>get_shared_weights\<close>, \<open>set_shared_weights\<close>,
  \<open>freeze_shared_weights\<close> and \<open>unfreeze_shared_weights\<close> (\<open>networks.py\<close> of the example)
  are not among the sources. Following section 4.3 of the specification, export returns a
  copy of the shared parameters only, import overwrites the shared parameters in place and
  fails with \<open>ShapeMismatchError\<close> before writing anything when the shapes differ, and
  freeze and unfreeze clear and set the trainable flag of the shared subset.
\<close>

fun export_shared :: "real list \<Rightarrow> bool list \<Rightarrow> real list" where
  "export_shared (w # ws) (s # ss) = (if s then w # export_shared ws ss else export_shared ws ss)"
| "export_shared ws ss = []"

fun import_shared :: "real list \<Rightarrow> bool list \<Rightarrow> real list \<Rightarrow> real list" where
  "import_shared (w # ws) (s # ss) bundle =
     (if s then (case bundle of
                   [] \<Rightarrow> w # ws
                 | b # bs \<Rightarrow> b # import_shared ws ss bs)
      else w # import_shared ws ss bundle)"
| "import_shared ws ss bundle = ws"

definition net_get_shared_weights :: "approximator \<Rightarrow> real list" where
  "net_get_shared_weights net = export_shared (weights net) (shared net)"

definition net_set_shared_weights :: "real list \<Rightarrow> approximator \<Rightarrow> error + approximator" where
  "net_set_shared_weights bundle net =
     (if length bundle = length (net_get_shared_weights net)
      then Inr (net\<lparr>weights := import_shared (weights net) (shared net) bundle\<rparr>)
      else Inl ShapeMismatchError)"

definition net_freeze_shared_weights :: "approximator \<Rightarrow> approximator" where
  "net_freeze_shared_weights net = net\<lparr>trainable := False\<rparr>"

definition net_unfreeze_shared_weights :: "approximator \<Rightarrow> approximator" where
  "net_unfreeze_shared_weights net = net\<lparr>trainable := True\<rparr>"

text \<open>
  The forward pass and the fit of mushroom-rl's \<open>Regressor\<close> are external. They are
  parameters of the model: the forward passes of actor and critic on a batch with its
  task indices, and the weights that a fit leaves (\<open>None\<close> when the fit raises). The
  actor's loss evaluates the live critic, so the actor's fit reads the critic too.
\<close>

record regressors =
  actor_forward :: "approximator \<Rightarrow> ndarray \<Rightarrow> int list \<Rightarrow> real list list"
  critic_forward :: "approximator \<Rightarrow> ndarray \<Rightarrow> real list list \<Rightarrow> int list \<Rightarrow> real list"
  critic_fit :: "approximator \<Rightarrow> ndarray \<Rightarrow> real list list \<Rightarrow> real list \<Rightarrow> int list
    \<Rightarrow> real list option"
  actor_fit :: "approximator \<Rightarrow> approximator \<Rightarrow> ndarray \<Rightarrow> int list \<Rightarrow> real list option"

section \<open>The agent (\<open>shared_ddpg.py\<close>, class \<open>SharedDDPG\<close>)\<close>

text \<open>
  The attributes of the agent. \<open>n_input_per_mdp\<close> and \<open>n_actions_per_head\<close> hold the first
  component of each shape tuple (\<open>n_input_per_mdp[i][0]\<close>, \<open>n_actions_per_head[i][0]\<close>);
  \<open>observation_shape\<close> and \<open>gamma\<close> are \<open>mdp_info.observation_space.shape[0]\<close> and
  \<open>mdp_info.gamma\<close>.
\<close>

record agent =
  batch_size :: nat
  n_games :: nat
  n_input_per_mdp :: "nat list"
  n_actions_per_head :: "nat list"
  max_actions :: nat
  tau :: real
  observation_shape :: nat
  gamma :: "real list"
  replay_memory :: "replay_memory list"
  n_updates :: nat
  critic_approximator :: approximator
  target_critic_approximator :: approximator
  actor_approximator :: approximator
  target_actor_approximator :: approximator
  state_idxs :: "int list"
  state :: ndarray
  action :: "real list list"
  reward :: "real list"
  next_state_idxs :: "int list"
  next_state :: ndarray
  absorbing :: "real list"

text \<open>\<open>_allocate_memory\<close> (lines 157--173).\<close>

definition allocate_memory :: "agent \<Rightarrow> agent" where
  "allocate_memory a =
     (let n_samples = batch_size a * n_games a
      in a\<lparr>state_idxs := replicate n_samples 0,
           state := np_zeros_squeeze n_samples (observation_shape a),
           action := replicate n_samples (replicate (max_actions a) 0),
           reward := replicate n_samples 0,
           next_state_idxs := replicate n_samples 0,
           next_state := np_zeros_squeeze n_samples (observation_shape a),
           absorbing := replicate n_samples 0\<rparr>)"

text \<open>
  The constructor arguments, and \<open>__init__\<close> (lines 27--94). \<open>p_actor\<close> and \<open>p_critic\<close> are
  the live approximators as \<open>Regressor\<close> builds them; the target approximators start with
  the same weights. \<open>max(n_actions_per_head)\<close> raises \<open>ValueError\<close> on an empty list.
\<close>

record ddpg_params =
  p_batch_size :: nat
  p_initial_replay_size :: nat
  p_max_replay_size :: nat
  p_tau :: real
  p_n_actions_per_head :: "nat list"
  p_n_input_per_mdp :: "nat list option"
  p_n_games :: nat
  p_observation_shape :: nat
  p_gamma :: "real list"
  p_actor :: approximator
  p_critic :: approximator

definition SharedDDPG_init :: "ddpg_params \<Rightarrow> error + agent" where
  "SharedDDPG_init p =
     (if p_n_actions_per_head p = [] then Inl ValueError
      else Inr (allocate_memory
        \<lparr>batch_size = p_batch_size p,
         n_games = p_n_games p,
         n_input_per_mdp = (case p_n_input_per_mdp p of
                              None \<Rightarrow> replicate (p_n_games p) (p_observation_shape p)
                            | Some xs \<Rightarrow> xs),
         n_actions_per_head = p_n_actions_per_head p,
         max_actions = Max (set (p_n_actions_per_head p)),
         tau = p_tau p,
         observation_shape = p_observation_shape p,
         gamma = p_gamma p,
         replay_memory = replicate (p_n_games p)
                           (rm_new (p_initial_replay_size p) (p_max_replay_size p)),
         n_updates = 0,
         critic_approximator = p_critic p,
         target_critic_approximator = p_critic p,
         actor_approximator = p_actor p,
         target_actor_approximator = p_actor p,
         state_idxs = [], state = Arr1 [], action = [], reward = [],
         next_state_idxs = [], next_state = Arr1 [], absorbing = []\<rparr>))"

subsection \<open>\<open>fit\<close>: routing (lines 97--105)\<close>

text \<open>
  The loop \<open>for g in games\<close>: the transitions whose task id is \<open>g\<close>, in dataset order, are
  added to \<open>self._replay_memory[g]\<close>. The buffers reached so far stay as they are when the
  index raises.
\<close>

fun route :: "int list \<Rightarrow> int list \<Rightarrow> transition list \<Rightarrow> replay_memory list
    \<Rightarrow> error option \<times> replay_memory list" where
  "route [] s dataset rms = (None, rms)"
| "route (g # games) s dataset rms =
     (let idxs = np_argwhere_eq s g;
          d = map (\<lambda>idx. dataset ! idx) idxs
      in case py_index (length rms) g of
           None \<Rightarrow> (Some IndexError, rms)
         | Some j \<Rightarrow> route games s dataset (rms[j := rm_add d (rms ! j)]))"

definition route_dataset :: "transition list \<Rightarrow> replay_memory list
    \<Rightarrow> error option \<times> replay_memory list" where
  "route_dataset dataset rms =
     (let s = map tr_task_id dataset
      in route (np_unique s) s dataset rms)"

subsection \<open>\<open>fit\<close>: the combined batch (lines 110--124)\<close>

definition write_state_idxs :: "nat \<Rightarrow> agent \<Rightarrow> error option \<times> agent" where
  "write_state_idxs i a =
     (let start = batch_size a * i; stop = start + batch_size a
      in case set_slice start stop (replicate (batch_size a) (int i)) (state_idxs a) of
           None \<Rightarrow> (Some ValueError, a)
         | Some xs \<Rightarrow> (None, a\<lparr>state_idxs := xs\<rparr>))"

definition write_state :: "nat \<Rightarrow> real list list \<Rightarrow> agent \<Rightarrow> error option \<times> agent" where
  "write_state i game_state a =
     (let start = batch_size a * i; stop = start + batch_size a
      in if length (n_input_per_mdp a) \<le> i then (Some IndexError, a)
         else case set_block_nd start stop (n_input_per_mdp a ! i) game_state (state a) of
                Inl e \<Rightarrow> (Some e, a)
              | Inr m \<Rightarrow> (None, a\<lparr>state := m\<rparr>))"

definition write_action :: "nat \<Rightarrow> real list list \<Rightarrow> agent \<Rightarrow> error option \<times> agent" where
  "write_action i game_action a =
     (let start = batch_size a * i; stop = start + batch_size a
      in if length (n_actions_per_head a) \<le> i then (Some IndexError, a)
         else case set_block start stop (n_actions_per_head a ! i) game_action (action a) of
                None \<Rightarrow> (Some ValueError, a)
              | Some m \<Rightarrow> (None, a\<lparr>action := m\<rparr>))"

definition write_reward :: "nat \<Rightarrow> real list \<Rightarrow> agent \<Rightarrow> error option \<times> agent" where
  "write_reward i game_reward a =
     (let start = batch_size a * i; stop = start + batch_size a
      in case set_slice start stop game_reward (reward a) of
           None \<Rightarrow> (Some ValueError, a)
         | Some xs \<Rightarrow> (None, a\<lparr>reward := xs\<rparr>))"

definition write_next_state_idxs :: "nat \<Rightarrow> agent \<Rightarrow> error option \<times> agent" where
  "write_next_state_idxs i a =
     (let start = batch_size a * i; stop = start + batch_size a
      in case set_slice start stop (replicate (batch_size a) (int i)) (next_state_idxs a) of
           None \<Rightarrow> (Some ValueError, a)
         | Some xs \<Rightarrow> (None, a\<lparr>next_state_idxs := xs\<rparr>))"

definition write_next_state :: "nat \<Rightarrow> real list list \<Rightarrow> agent \<Rightarrow> error option \<times> agent" where
  "write_next_state i game_next_state a =
     (let start = batch_size a * i; stop = start + batch_size a
      in if length (n_input_per_mdp a) \<le> i then (Some IndexError, a)
         else case set_block_nd start stop (n_input_per_mdp a ! i) game_next_state
                     (next_state a) of
                Inl e \<Rightarrow> (Some e, a)
              | Inr m \<Rightarrow> (None, a\<lparr>next_state := m\<rparr>))"

definition write_absorbing :: "nat \<Rightarrow> bool list \<Rightarrow> agent \<Rightarrow> error option \<times> agent" where
  "write_absorbing i game_absorbing a =
     (let start = batch_size a * i; stop = start + batch_size a
      in case set_slice start stop (map of_bool game_absorbing) (absorbing a) of
           None \<Rightarrow> (Some ValueError, a)
         | Some xs \<Rightarrow> (None, a\<lparr>absorbing := xs\<rparr>))"

text \<open>
  The body of \<open>for i in range(len(self._replay_memory))\<close>: sample task \<open>i\<close>'s buffer, then
  the seven assignments in the order of the source.
\<close>

definition gather_task :: "(nat \<Rightarrow> nat \<Rightarrow> nat) \<Rightarrow> nat \<Rightarrow> agent \<Rightarrow> error option \<times> agent" where
  "gather_task rnd i a =
     (let r = rm_get (batch_size a) (rnd i) (replay_memory a ! i);
          a1 = a\<lparr>replay_memory := (replay_memory a)[i := snd r]\<rparr>
      in case fst r of
           Inl e \<Rightarrow> (Some e, a1)
         | Inr smp \<Rightarrow>
             run_steps [write_state_idxs i,
                        write_state i (map tr_state smp),
                        write_action i (map tr_action smp),
                        write_reward i (map tr_reward smp),
                        write_next_state_idxs i,
                        write_next_state i (map tr_next_state smp),
                        write_absorbing i (map tr_absorbing smp)] a1)"

definition assemble :: "(nat \<Rightarrow> nat \<Rightarrow> nat) \<Rightarrow> agent \<Rightarrow> error option \<times> agent" where
  "assemble rnd a = run_steps (map (gather_task rnd) [0..<length (replay_memory a)]) a"

subsection \<open>\<open>_next_q\<close> (lines 188--205) and the critic's target\<close>

fun next_q_loop :: "nat list \<Rightarrow> agent \<Rightarrow> real list \<Rightarrow> real list \<Rightarrow> error + real list" where
  "next_q_loop [] a q out_q = Inr out_q"
| "next_q_loop (i # is) a q out_q =
     (let start = batch_size a * i; stop = start + batch_size a
      in if length (gamma a) \<le> i then Inl IndexError
         else case set_slice start stop
                     (map (\<lambda>x. x * gamma a ! i) (get_slice start stop q)) out_q of
                None \<Rightarrow> Inl ValueError
              | Some out1 \<Rightarrow>
                  if list_ex (\<lambda>x. x \<noteq> 0) (get_slice start stop (absorbing a))
                  then (case np_mul (get_slice start stop out1)
                               (map (\<lambda>x. 1 - x) (get_slice start stop (absorbing a))) of
                          None \<Rightarrow> Inl ValueError
                        | Some v \<Rightarrow>
                            (case set_slice start stop v out1 of
                               None \<Rightarrow> Inl ValueError
                             | Some out2 \<Rightarrow> next_q_loop is a q out2))
                  else next_q_loop is a q out1)"

text \<open>The target critic's output \<open>q\<close> at the next states and the target actor's actions.\<close>

definition target_q :: "regressors \<Rightarrow> agent \<Rightarrow> real list" where
  "target_q env a =
     critic_forward env (target_critic_approximator a) (next_state a)
       (actor_forward env (target_actor_approximator a) (next_state a) (next_state_idxs a))
       (next_state_idxs a)"

definition next_q :: "regressors \<Rightarrow> agent \<Rightarrow> error + real list" where
  "next_q env a =
     next_q_loop [0..<n_games a] a (target_q env a)
       (replicate (batch_size a * n_games a) 0)"

text \<open>\<open>q = self._reward + q_next\<close> (lines 126--127), the target the critic is fitted to.\<close>

definition critic_target :: "regressors \<Rightarrow> agent \<Rightarrow> error + real list" where
  "critic_target env a =
     (case next_q env a of
        Inl e \<Rightarrow> Inl e
      | Inr q_next \<Rightarrow> (case np_add (reward a) q_next of
                        None \<Rightarrow> Inl ValueError
                      | Some q \<Rightarrow> Inr q))"

subsection \<open>\<open>_update_target\<close> (lines 175--186)\<close>

text \<open>\<open>w = tau * live; w += (1 - tau) * target\<close> on weight vectors.\<close>

definition soft_update :: "real \<Rightarrow> real list \<Rightarrow> real list \<Rightarrow> real list option" where
  "soft_update t live target =
     np_add (map (\<lambda>w. t * w) live) (map (\<lambda>w. (1 - t) * w) target)"

definition update_target :: "agent \<Rightarrow> error option \<times> agent" where
  "update_target a =
     (case soft_update (tau a) (weights (critic_approximator a))
             (weights (target_critic_approximator a)) of
        None \<Rightarrow> (Some ValueError, a)
      | Some critic_weights \<Rightarrow>
          (let a1 = a\<lparr>target_critic_approximator :=
                        (target_critic_approximator a)\<lparr>weights := critic_weights\<rparr>\<rparr>
           in case soft_update (tau a1) (weights (actor_approximator a1))
                     (weights (target_actor_approximator a1)) of
                None \<Rightarrow> (Some ValueError, a1)
              | Some actor_weights \<Rightarrow>
                  (None, a1\<lparr>target_actor_approximator :=
                             (target_actor_approximator a1)\<lparr>weights := actor_weights\<rparr>\<rparr>)))"

subsection \<open>\<open>fit\<close> (lines 96--137)\<close>

text \<open>The update cycle, lines 110--137, run when \<open>fit_condition\<close> holds.\<close>

definition update_cycle :: "regressors \<Rightarrow> (nat \<Rightarrow> nat \<Rightarrow> nat) \<Rightarrow> agent
    \<Rightarrow> error option \<times> agent" where
  "update_cycle env rnd a =
     (case assemble rnd a of
        (Some e, a1) \<Rightarrow> (Some e, a1)
      | (None, a1) \<Rightarrow>
          (case critic_target env a1 of
             Inl e \<Rightarrow> (Some e, a1)
           | Inr q \<Rightarrow>
               (case critic_fit env (critic_approximator a1) (state a1) (action a1) q
                       (state_idxs a1) of
                  None \<Rightarrow> (Some ApproximatorError, a1)
                | Some cw \<Rightarrow>
                    (let a2 = a1\<lparr>critic_approximator :=
                                   (critic_approximator a1)\<lparr>weights := cw\<rparr>\<rparr>
                     in case actor_fit env (actor_approximator a2) (critic_approximator a2)
                               (state a2) (state_idxs a2) of
                          None \<Rightarrow> (Some ApproximatorError, a2)
                        | Some aw \<Rightarrow>
                            update_target
                              (a2\<lparr>actor_approximator :=
                                    (actor_approximator a2)\<lparr>weights := aw\<rparr>,
                                  n_updates := n_updates a2 + 1\<rparr>)))))"

definition fit_condition :: "replay_memory list \<Rightarrow> bool" where
  "fit_condition rms = list_all rm_initialized rms"

definition fit :: "regressors \<Rightarrow> (nat \<Rightarrow> nat \<Rightarrow> nat) \<Rightarrow> agent \<Rightarrow> transition list
    \<Rightarrow> error option \<times> agent" where
  "fit env rnd a dataset =
     (case route_dataset dataset (replay_memory a) of
        (Some e, rms) \<Rightarrow> (Some e, a\<lparr>replay_memory := rms\<rparr>)
      | (None, rms) \<Rightarrow>
          (let a1 = a\<lparr>replay_memory := rms\<rparr>
           in if fit_condition rms then update_cycle env rnd a1 else (None, a1)))"

text \<open>A sequence of \<open>fit\<close> calls, each with its own random draws and dataset.\<close>

fun fits :: "regressors \<Rightarrow> agent \<Rightarrow> ((nat \<Rightarrow> nat \<Rightarrow> nat) \<times> transition list) list \<Rightarrow> agent" where
  "fits env a [] = a"
| "fits env a (c # cs) = fits env (snd (fit env (fst c) a (snd c))) cs"

subsection \<open>Shared weights (lines 139--155)\<close>

definition get_shared_weights :: "agent \<Rightarrow> real list list" where
  "get_shared_weights a =
     (let cw = net_get_shared_weights (critic_approximator a);
          aw = net_get_shared_weights (actor_approximator a)
      in [cw, aw])"

definition set_shared_weights :: "real list list \<Rightarrow> agent \<Rightarrow> error option \<times> agent" where
  "set_shared_weights ws a =
     (if length ws \<le> 0 then (Some IndexError, a)
      else case net_set_shared_weights (ws ! 0) (critic_approximator a) of
             Inl e \<Rightarrow> (Some e, a)
           | Inr c \<Rightarrow>
               (let a1 = a\<lparr>critic_approximator := c\<rparr>
                in if length ws \<le> 1 then (Some IndexError, a1)
                   else case net_set_shared_weights (ws ! 1) (actor_approximator a1) of
                          Inl e \<Rightarrow> (Some e, a1)
                        | Inr b \<Rightarrow> (None, a1\<lparr>actor_approximator := b\<rparr>)))"

definition freeze_shared_weights :: "agent \<Rightarrow> agent" where
  "freeze_shared_weights a =
     a\<lparr>critic_approximator := net_freeze_shared_weights (critic_approximator a),
       actor_approximator := net_freeze_shared_weights (actor_approximator a)\<rparr>"

definition unfreeze_shared_weights :: "agent \<Rightarrow> agent" where
  "unfreeze_shared_weights a =
     a\<lparr>critic_approximator := net_unfreeze_shared_weights (critic_approximator a),
       actor_approximator := net_unfreeze_shared_weights (actor_approximator a)\<rparr>"

section \<open>Vocabulary for the properties of the combined batch\<close>

text \<open>
  The \<open>j\<close>-th transition that \<open>get\<close> draws from task \<open>i\<close>'s buffer, and the rows of a state
  array.
\<close>

definition drawn :: "(nat \<Rightarrow> nat \<Rightarrow> nat) \<Rightarrow> agent \<Rightarrow> nat \<Rightarrow> nat \<Rightarrow> transition" where
  "drawn rnd a i j =
     rm_entries (replay_memory a ! i) ! (rnd i j mod length (rm_entries (replay_memory a ! i)))"

fun rows :: "ndarray \<Rightarrow> real list list" where
  "rows (Arr2 m) = m"
| "rows (Arr1 v) = []"

fun is_matrix :: "ndarray \<Rightarrow> bool" where
  "is_matrix (Arr2 m) = True"
| "is_matrix (Arr1 v) = False"

text \<open>Everything but the scratch arrays and the call counters of the buffers is the same.\<close>

definition same_config :: "agent \<Rightarrow> agent \<Rightarrow> bool" where
  "same_config a a' \<longleftrightarrow>
     batch_size a' = batch_size a \<and> n_games a' = n_games a
     \<and> n_input_per_mdp a' = n_input_per_mdp a
     \<and> n_actions_per_head a' = n_actions_per_head a
     \<and> max_actions a' = max_actions a \<and> tau a' = tau a
     \<and> observation_shape a' = observation_shape a \<and> gamma a' = gamma a
     \<and> n_updates a' = n_updates a
     \<and> critic_approximator a' = critic_approximator a
     \<and> target_critic_approximator a' = target_critic_approximator a
     \<and> actor_approximator a' = actor_approximator a
     \<and> target_actor_approximator a' = target_actor_approximator a
     \<and> length (replay_memory a') = length (replay_memory a)
     \<and> (\<forall>i < length (replay_memory a).
           replay_memory a' ! i
             = (replay_memory a ! i)\<lparr>rm_gets := rm_gets (replay_memory a' ! i)\<rparr>)"

text \<open>The scratch arrays have the same shapes.\<close>

definition same_shape :: "agent \<Rightarrow> agent \<Rightarrow> bool" where
  "same_shape a a' \<longleftrightarrow>
     length (state_idxs a') = length (state_idxs a)
     \<and> is_matrix (state a') = is_matrix (state a)
     \<and> length (rows (state a')) = length (rows (state a))
     \<and> length (action a') = length (action a)
     \<and> length (reward a') = length (reward a)
     \<and> length (next_state_idxs a') = length (next_state_idxs a)
     \<and> is_matrix (next_state a') = is_matrix (next_state a)
     \<and> length (rows (next_state a')) = length (rows (next_state a))
     \<and> length (absorbing a') = length (absorbing a)"

text \<open>Row \<open>r\<close> exists in all seven scratch arrays, which are matrices where the code needs it.\<close>

definition has_row :: "agent \<Rightarrow> nat \<Rightarrow> bool" where
  "has_row a r \<longleftrightarrow>
     r < length (state_idxs a) \<and> is_matrix (state a) \<and> r < length (rows (state a))
     \<and> r < length (action a) \<and> r < length (reward a)
     \<and> r < length (next_state_idxs a)
     \<and> is_matrix (next_state a) \<and> r < length (rows (next_state a))
     \<and> r < length (absorbing a)"

text \<open>Row \<open>r\<close> is the same in all seven scratch arrays.\<close>

definition row_kept :: "agent \<Rightarrow> agent \<Rightarrow> nat \<Rightarrow> bool" where
  "row_kept a a' r \<longleftrightarrow>
     state_idxs a' ! r = state_idxs a ! r
     \<and> rows (state a') ! r = rows (state a) ! r
     \<and> action a' ! r = action a ! r
     \<and> reward a' ! r = reward a ! r
     \<and> next_state_idxs a' ! r = next_state_idxs a ! r
     \<and> rows (next_state a') ! r = rows (next_state a) ! r
     \<and> absorbing a' ! r = absorbing a ! r"

text \<open>
  Row \<open>r\<close> of \<open>a'\<close> holds transition \<open>t\<close> of task \<open>i\<close>: the task index in both index arrays,
  the observations and the action in the leading columns of the rows of \<open>a\<close> (whose other
  columns stay), the reward and the absorbing flag.
\<close>

definition row_filled :: "transition \<Rightarrow> nat \<Rightarrow> agent \<Rightarrow> agent \<Rightarrow> nat \<Rightarrow> bool" where
  "row_filled t i a a' r \<longleftrightarrow>
     state_idxs a' ! r = int i
     \<and> rows (state a') ! r
         = set_cols (n_input_per_mdp a ! i) (tr_state t) (rows (state a) ! r)
     \<and> length (tr_state t) = min (n_input_per_mdp a ! i) (length (rows (state a) ! r))
     \<and> action a' ! r = set_cols (n_actions_per_head a ! i) (tr_action t) (action a ! r)
     \<and> length (tr_action t) = min (n_actions_per_head a ! i) (length (action a ! r))
     \<and> reward a' ! r = tr_reward t
     \<and> next_state_idxs a' ! r = int i
     \<and> rows (next_state a') ! r
         = set_cols (n_input_per_mdp a ! i) (tr_next_state t) (rows (next_state a) ! r)
     \<and> length (tr_next_state t)
         = min (n_input_per_mdp a ! i) (length (rows (next_state a) ! r))
     \<and> absorbing a' ! r = of_bool (tr_absorbing t)"

text \<open>
  The padding invariant. The width of task \<open>b\<close>'s observations and actions (0 for a task
  without an entry in the lists: its rows are never written), a row that is zero from
  column \<open>k\<close> on, and the invariant itself: every row is zero beyond the width of the task
  of its block, and a row carries the task index of its block unless it has never been
  written and is still all zero.
\<close>

definition width_in :: "agent \<Rightarrow> nat \<Rightarrow> nat" where
  "width_in a b = (if b < length (n_input_per_mdp a) then n_input_per_mdp a ! b else 0)"

definition width_act :: "agent \<Rightarrow> nat \<Rightarrow> nat" where
  "width_act a b = (if b < length (n_actions_per_head a) then n_actions_per_head a ! b else 0)"

definition zero_from :: "nat \<Rightarrow> real list \<Rightarrow> bool" where
  "zero_from k row \<longleftrightarrow> (\<forall>c. k \<le> c \<and> c < length row \<longrightarrow> row ! c = 0)"

definition padded :: "agent \<Rightarrow> bool" where
  "padded a \<longleftrightarrow>
     (\<forall>r < length (rows (state a)).
        zero_from (width_in a (r div batch_size a)) (rows (state a) ! r))
     \<and> (\<forall>r < length (action a).
          zero_from (width_act a (r div batch_size a)) (action a ! r))
     \<and> (\<forall>r < length (rows (next_state a)).
          zero_from (width_in a (r div batch_size a)) (rows (next_state a) ! r))
     \<and> (\<forall>r < length (state_idxs a).
          state_idxs a ! r = int (r div batch_size a)
          \<or> ((r < length (rows (state a)) \<longrightarrow> zero_from 0 (rows (state a) ! r))
              \<and> (r < length (action a) \<longrightarrow> zero_from 0 (action a ! r))))
     \<and> (\<forall>r < length (next_state_idxs a).
          next_state_idxs a ! r = int (r div batch_size a)
          \<or> (r < length (rows (next_state a)) \<longrightarrow> zero_from 0 (rows (next_state a) ! r)))"

text \<open>The rows of task \<open>i\<close>'s block carry the index \<open>i\<close> in an index array.\<close>

definition block_tagged :: "int list \<Rightarrow> nat \<Rightarrow> nat \<Rightarrow> bool" where
  "block_tagged xs B i \<longleftrightarrow> (\<forall>r < length xs. B * i \<le> r \<and> r < B * i + B \<longrightarrow> xs ! r = int i)"

text \<open>Everything but the approximators, the soft-update rate and the update counter is the same.\<close>

definition same_scratch :: "agent \<Rightarrow> agent \<Rightarrow> bool" where
  "same_scratch a a' \<longleftrightarrow>
     batch_size a' = batch_size a \<and> n_games a' = n_games a
     \<and> n_input_per_mdp a' = n_input_per_mdp a
     \<and> n_actions_per_head a' = n_actions_per_head a
     \<and> max_actions a' = max_actions a
     \<and> observation_shape a' = observation_shape a \<and> gamma a' = gamma a
     \<and> replay_memory a' = replay_memory a
     \<and> state_idxs a' = state_idxs a \<and> state a' = state a \<and> action a' = action a
     \<and> reward a' = reward a \<and> next_state_idxs a' = next_state_idxs a
     \<and> next_state a' = next_state a \<and> absorbing a' = absorbing a"

section \<open>A concrete configuration\<close>

text \<open>
  Two tasks with observation widths 2 and 3 and action widths 1 and 2, batch size 2, and
  buffers that are initialized at two transitions. The target critic of the example
  answers 8 on every row; a critic fit adds 1 to every weight.
\<close>

definition example_params :: ddpg_params where
  "example_params =
     \<lparr>p_batch_size = 2, p_initial_replay_size = 2, p_max_replay_size = 4, p_tau = 1 / 2,
      p_n_actions_per_head = [1, 2], p_n_input_per_mdp = Some [2, 3], p_n_games = 2,
      p_observation_shape = 3, p_gamma = [1 / 2, 1 / 4],
      p_actor = \<lparr>weights = [1, 2], shared = [True, False], trainable = True\<rparr>,
      p_critic = \<lparr>weights = [4, 8], shared = [True, False], trainable = True\<rparr>\<rparr>"

text \<open>The agent that \<open>__init__\<close> builds from these arguments.\<close>

definition example_agent :: agent where
  "example_agent =
     \<lparr>batch_size = 2, n_games = 2, n_input_per_mdp = [2, 3], n_actions_per_head = [1, 2],
      max_actions = 2, tau = 1 / 2, observation_shape = 3, gamma = [1 / 2, 1 / 4],
      replay_memory =
        [\<lparr>rm_entries = [], rm_initial_size = 2, rm_max_size = 4, rm_gets = 0\<rparr>,
         \<lparr>rm_entries = [], rm_initial_size = 2, rm_max_size = 4, rm_gets = 0\<rparr>],
      n_updates = 0,
      critic_approximator = \<lparr>weights = [4, 8], shared = [True, False], trainable = True\<rparr>,
      target_critic_approximator =
        \<lparr>weights = [4, 8], shared = [True, False], trainable = True\<rparr>,
      actor_approximator = \<lparr>weights = [1, 2], shared = [True, False], trainable = True\<rparr>,
      target_actor_approximator =
        \<lparr>weights = [1, 2], shared = [True, False], trainable = True\<rparr>,
      state_idxs = [0, 0, 0, 0],
      state = Arr2 [[0, 0, 0], [0, 0, 0], [0, 0, 0], [0, 0, 0]],
      action = [[0, 0], [0, 0], [0, 0], [0, 0]],
      reward = [0, 0, 0, 0],
      next_state_idxs = [0, 0, 0, 0],
      next_state = Arr2 [[0, 0, 0], [0, 0, 0], [0, 0, 0], [0, 0, 0]],
      absorbing = [0, 0, 0, 0]\<rparr>"

definition example_regressors :: regressors where
  "example_regressors =
     \<lparr>actor_forward = (\<lambda>net s idx. replicate (length idx) [0, 0]),
      critic_forward = (\<lambda>net s act idx. replicate (length idx) 8),
      critic_fit = (\<lambda>net s act q idx. Some (map (\<lambda>w. w + 1) (weights net))),
      actor_fit = (\<lambda>net critic s idx. Some (weights net))\<rparr>"

definition example_dataset :: "transition list" where
  "example_dataset =
     [\<lparr>tr_task_id = 1, tr_state = [1, 2, 3], tr_action = [7, 8], tr_reward = 3,
       tr_next_state = [4, 5, 6], tr_absorbing = False, tr_last = False\<rparr>,
      \<lparr>tr_task_id = 0, tr_state = [1, 2], tr_action = [5], tr_reward = 1,
       tr_next_state = [3, 4], tr_absorbing = False, tr_last = False\<rparr>,
      \<lparr>tr_task_id = 1, tr_state = [4, 5, 6], tr_action = [9, 9], tr_reward = 4,
       tr_next_state = [7, 7, 7], tr_absorbing = False, tr_last = False\<rparr>,
      \<lparr>tr_task_id = 0, tr_state = [3, 4], tr_action = [6], tr_reward = 2,
       tr_next_state = [5, 5], tr_absorbing = True, tr_last = True\<rparr>]"

definition example_draws :: "nat \<Rightarrow> nat \<Rightarrow> nat" where
  "example_draws i j = j"

text \<open>A transition tagged with task id \<open>g\<close>.\<close>

definition example_transition :: "int \<Rightarrow> transition" where
  "example_transition g =
     \<lparr>tr_task_id = g, tr_state = [1, 2], tr_action = [5], tr_reward = 1,
      tr_next_state = [3, 4], tr_absorbing = False, tr_last = False\<rparr>"

text \<open>The example agent once the example dataset has been routed to its buffers.\<close>

definition example_routed :: agent where
  "example_routed =
     example_agent\<lparr>replay_memory :=
        snd (route_dataset example_dataset (replay_memory example_agent))\<rparr>"

section \<open>The runner loop (\<open>exp_shared_bullet.py\<close>, \<open>experiment\<close>, lines 185--228)\<close>

text \<open>
  The agent and the multitask core are external to the loop; it calls them through
  \<open>core.learn\<close>, \<open>core.evaluate\<close>, \<open>agent.freeze_shared_weights\<close>,
  \<open>agent.unfreeze_shared_weights\<close> and \<open>agent.get_shared_weights\<close>. The type \<open>'s\<close> is
  the joint state of agent, core and environments, \<open>'w\<close> the type of a shared-weight bundle.
  \<open>op_evaluate\<close> returns the per-task mean discounted returns (\<open>current_score\<close>).
\<close>

record ('s, 'w) core_ops =
  op_learn :: "'s \<Rightarrow> 's"
  op_evaluate :: "'s \<Rightarrow> real list \<times> 's"
  op_freeze :: "'s \<Rightarrow> 's"
  op_unfreeze :: "'s \<Rightarrow> 's"
  op_get_shared :: "'s \<Rightarrow> 'w"

text \<open>The command-line arguments the loop reads.\<close>

record args =
  unfreeze_epoch :: int
  save_shared :: string
  save :: bool

text \<open>The calls the loop makes on its collaborators, in order (a trace of the run).\<close>

datatype call = FreezeShared | UnfreezeShared | Learn | Evaluate | EpochInfo int
  | GetShared | LogAgent | LogNumpy

text \<open>
  \<open>best_score_sum\<close> starts at \<open>-np.inf\<close>, which is \<open>None\<close> here; \<open>best_weights\<close> starts at
  Python's \<open>None\<close>.
\<close>

record ('s, 'w) run_state =
  core :: 's
  best_score_sum :: "real option"
  best_weights :: "'w option"
  calls :: "call list"

text \<open>\<open>current_score_sum >= best_score_sum\<close>\<close>

definition ge_best :: "real \<Rightarrow> real option \<Rightarrow> bool" where
  "ge_best x b = (case b of None \<Rightarrow> True | Some y \<Rightarrow> y \<le> x)"

text \<open>One iteration of \<open>for n_epoch in range(1, max_steps // evaluation_frequency + 1)\<close>.\<close>

definition epoch :: "args \<Rightarrow> ('s, 'w) core_ops \<Rightarrow> int \<Rightarrow> ('s, 'w) run_state
    \<Rightarrow> ('s, 'w) run_state" where
  "epoch ar ops n_epoch st =
     (let st1 = (if unfreeze_epoch ar \<le> n_epoch \<and> 0 < unfreeze_epoch ar
                 then st\<lparr>core := op_unfreeze ops (core st),
                         calls := calls st @ [UnfreezeShared]\<rparr>
                 else st);
          c2 = op_learn ops (core st1);
          ev = op_evaluate ops c2;
          current_score_sum = sum_list (fst ev);
          st2 = st1\<lparr>core := snd ev, calls := calls st1 @ [Learn, Evaluate, EpochInfo n_epoch]\<rparr>;
          st3 = (if save_shared ar \<noteq> [] \<and> ge_best current_score_sum (best_score_sum st2)
                 then st2\<lparr>best_score_sum := Some current_score_sum,
                          best_weights := Some (op_get_shared ops (core st2)),
                          calls := calls st2 @ [GetShared]\<rparr>
                 else st2);
          st4 = (if save ar then st3\<lparr>calls := calls st3 @ [LogAgent]\<rparr> else st3)
      in st4\<lparr>calls := calls st4 @ [LogNumpy]\<rparr>)"

text \<open>
  Lines 185--228 of \<open>experiment\<close>. The result is the final state and what \<open>pickle.dump\<close> wrote:
  \<open>None\<close> when nothing was dumped, \<open>Some b\<close> when \<open>best_weights = b\<close> was dumped.
  \<open>max_steps // evaluation_frequency\<close> raises on a zero divisor.
\<close>

definition experiment_loop :: "args \<Rightarrow> ('s, 'w) core_ops \<Rightarrow> int \<Rightarrow> int \<Rightarrow> 's
    \<Rightarrow> error + (('s, 'w) run_state \<times> 'w option option)" where
  "experiment_loop ar ops max_steps evaluation_frequency c =
     (let st0 = (if 0 < unfreeze_epoch ar
                 then \<lparr>core = op_freeze ops c, best_score_sum = None, best_weights = None,
                       calls = [FreezeShared, LogNumpy]\<rparr>
                 else \<lparr>core = c, best_score_sum = None, best_weights = None,
                       calls = [LogNumpy]\<rparr>)
      in if evaluation_frequency = 0 then Inl ZeroDivisionError
         else
           (let st = foldl (\<lambda>s n. epoch ar ops n s) st0
                       [1..max_steps div evaluation_frequency]
            in Inr (st, if save_shared ar \<noteq> [] then Some (best_weights st) else None)))"

text \<open>
  The calls that set the freeze state, learn, evaluate and report the epoch. The other
  calls depend on the scores and on the logging options.
\<close>

fun lifecycle :: "call \<Rightarrow> bool" where
  "lifecycle FreezeShared = True"
| "lifecycle UnfreezeShared = True"
| "lifecycle Learn = True"
| "lifecycle Evaluate = True"
| "lifecycle (EpochInfo n) = True"
| "lifecycle c = False"

text \<open>
  The joint state that epoch \<open>n\<close> leaves when it starts in \<open>s\<close>: the unfreeze (from the
  threshold on), then the learning phase, then the evaluation.
\<close>

definition epoch_core :: "args \<Rightarrow> ('s, 'w) core_ops \<Rightarrow> 's \<Rightarrow> int \<Rightarrow> 's" where
  "epoch_core ar ops s n =
     snd (op_evaluate ops (op_learn ops
       (if unfreeze_epoch ar \<le> n \<and> 0 < unfreeze_epoch ar then op_unfreeze ops s else s)))"

text \<open>\<open>current_score_sum\<close> of the epoch that starts in state \<open>st\<close>.\<close>

definition epoch_score :: "args \<Rightarrow> ('s, 'w) core_ops \<Rightarrow> int \<Rightarrow> ('s, 'w) run_state \<Rightarrow> real" where
  "epoch_score ar ops n_epoch st =
     sum_list (fst (op_evaluate ops (op_learn ops
       (if unfreeze_epoch ar \<le> n_epoch \<and> 0 < unfreeze_epoch ar
        then op_unfreeze ops (core st) else core st))))"

text \<open>The calls of a whole run (none when the run raises before the loop).\<close>

definition run_calls :: "args \<Rightarrow> ('s, 'w) core_ops \<Rightarrow> int \<Rightarrow> int \<Rightarrow> 's \<Rightarrow> call list" where
  "run_calls ar ops max_steps evaluation_frequency c =
     (case experiment_loop ar ops max_steps evaluation_frequency c of
        Inl e \<Rightarrow> [] | Inr r \<Rightarrow> calls (fst r))"

text \<open>
  A small concrete collaborator for evaluating the loop: the state counts the learning
  phases, the evaluation of a state \<open>k\<close> scores \<open>[k, 1]\<close>, and the exported bundle is the
  state itself.
\<close>

definition counting_ops :: "(nat, nat) core_ops" where
  "counting_ops = \<lparr>op_learn = Suc, op_evaluate = (\<lambda>k. ([real k, 1], k)),
     op_freeze = id, op_unfreeze = id, op_get_shared = id\<rparr>"

text \<open>
  A collaborator whose state is the list of the operations applied to it, in order; every
  evaluation scores \<open>[1]\<close> and the exported bundle is the number of operations so far.
\<close>

definition recording_ops :: "(call list, nat) core_ops" where
  "recording_ops =
     \<lparr>op_learn = (\<lambda>s. s @ [Learn]), op_evaluate = (\<lambda>s. ([1], s @ [Evaluate])),
      op_freeze = (\<lambda>s. s @ [FreezeShared]), op_unfreeze = (\<lambda>s. s @ [UnfreezeShared]),
      op_get_shared = length\<rparr>"

section \<open>Properties of the agent: shared weights and target networks\<close>

lemma example_init: "SharedDDPG_init example_params = Inr example_agent"
  by code_simp

lemma import_export_shared: "import_shared ws ss (export_shared ws ss) = ws"
  by (induction ws ss rule: export_shared.induct) auto

lemma net_round_trip: "net_set_shared_weights (net_get_shared_weights net) net = Inr net"
  by (simp add: net_set_shared_weights_def net_get_shared_weights_def import_export_shared)

text \<open>
  C6. \<open>get_shared_weights\<close> returns the two-element bundle of the critic's and the actor's
  shared parameters, and writing that bundle back with \<open>set_shared_weights\<close> raises
  nothing and leaves the whole agent, shared and per-task parameters alike, exactly as it
  was.
\<close>

theorem shared_weights_round_trip:
  "length (get_shared_weights a) = 2
   \<and> get_shared_weights a = [net_get_shared_weights (critic_approximator a),
                              net_get_shared_weights (actor_approximator a)]
   \<and> set_shared_weights (get_shared_weights a) a = (None, a)"
  by (simp add: get_shared_weights_def set_shared_weights_def net_round_trip Let_def)

lemma soft_update_Some:
  assumes "length target = length live"
  shows "soft_update t live target = Some (map2 (\<lambda>l w. t * l + (1 - t) * w) live target)"
  using assms
  by (simp add: soft_update_def np_add_def zip_map1 zip_map2 map_zip_map map_zip_map2 split_def)

lemma map2_fst: "length xs = length ys \<Longrightarrow> map2 (\<lambda>x y. x) xs ys = xs"
  by (induction xs ys rule: list_induct2) auto

lemma map2_snd: "length xs = length ys \<Longrightarrow> map2 (\<lambda>x y. y) xs ys = ys"
  by (induction xs ys rule: list_induct2) auto

text \<open>
  C3. When each target network has as many parameters as its live network (they are built
  from the same class and arguments), \<open>_update_target\<close> raises nothing and sets every
  parameter of the target critic and of the target actor to
  \<open>tau * live + (1 - tau) * target\<close>. With \<open>tau\<close> set to 1 the target weights become the
  live weights, with \<open>tau\<close> set to 0 they stay as they are. Weights are real numbers here.
\<close>

theorem soft_update_target:
  assumes "length (weights (target_critic_approximator a))
             = length (weights (critic_approximator a))"
      and "length (weights (target_actor_approximator a))
             = length (weights (actor_approximator a))"
  shows "fst (update_target a) = None
    \<and> (\<forall>k < length (weights (critic_approximator a)).
          weights (target_critic_approximator (snd (update_target a))) ! k =
            tau a * weights (critic_approximator a) ! k
            + (1 - tau a) * weights (target_critic_approximator a) ! k)
    \<and> (\<forall>k < length (weights (actor_approximator a)).
          weights (target_actor_approximator (snd (update_target a))) ! k =
            tau a * weights (actor_approximator a) ! k
            + (1 - tau a) * weights (target_actor_approximator a) ! k)
    \<and> length (weights (target_critic_approximator (snd (update_target a))))
        = length (weights (critic_approximator a))
    \<and> length (weights (target_actor_approximator (snd (update_target a))))
        = length (weights (actor_approximator a))
    \<and> weights (target_critic_approximator (snd (update_target (a\<lparr>tau := 1\<rparr>))))
        = weights (critic_approximator a)
    \<and> weights (target_actor_approximator (snd (update_target (a\<lparr>tau := 1\<rparr>))))
        = weights (actor_approximator a)
    \<and> weights (target_critic_approximator (snd (update_target (a\<lparr>tau := 0\<rparr>))))
        = weights (target_critic_approximator a)
    \<and> weights (target_actor_approximator (snd (update_target (a\<lparr>tau := 0\<rparr>))))
        = weights (target_actor_approximator a)"
  using assms
  by (simp add: update_target_def soft_update_Some Let_def map2_fst map2_snd)

text \<open>The example agent after a critic fit has moved the live critic to \<open>[5, 9]\<close>.\<close>

theorem soft_update_target_witness:
  "fst (update_target (example_agent\<lparr>critic_approximator :=
          \<lparr>weights = [5, 9], shared = [True, False], trainable = True\<rparr>\<rparr>)) = None
   \<and> weights (target_critic_approximator (snd (update_target
        (example_agent\<lparr>critic_approximator :=
          \<lparr>weights = [5, 9], shared = [True, False], trainable = True\<rparr>\<rparr>)))) ! 1
      = 1 / 2 * 9 + (1 - 1 / 2) * 8
   \<and> weights (target_critic_approximator (snd (update_target
        (example_agent\<lparr>critic_approximator :=
          \<lparr>weights = [5, 9], shared = [True, False], trainable = True\<rparr>, tau := 1\<rparr>))))
      = [5, 9]
   \<and> weights (target_critic_approximator (snd (update_target
        (example_agent\<lparr>critic_approximator :=
          \<lparr>weights = [5, 9], shared = [True, False], trainable = True\<rparr>, tau := 0\<rparr>))))
      = [4, 8]"
proof -
  let ?a = "example_agent\<lparr>critic_approximator :=
          \<lparr>weights = [5, 9], shared = [True, False], trainable = True\<rparr>\<rparr>"
  have l1: "length (weights (target_critic_approximator ?a))
              = length (weights (critic_approximator ?a))"
    by (simp add: example_agent_def)
  have l2: "length (weights (target_actor_approximator ?a))
              = length (weights (actor_approximator ?a))"
    by (simp add: example_agent_def)
  have v: "tau ?a = 1 / 2" "weights (critic_approximator ?a) = [5, 9]"
    "weights (target_critic_approximator ?a) = [4, 8]"
    by (simp_all add: example_agent_def)
  from soft_update_target[OF l1 l2] have
    "fst (update_target ?a) = None"
    "\<forall>k < length (weights (critic_approximator ?a)).
          weights (target_critic_approximator (snd (update_target ?a))) ! k =
            tau ?a * weights (critic_approximator ?a) ! k
            + (1 - tau ?a) * weights (target_critic_approximator ?a) ! k"
    "weights (target_critic_approximator (snd (update_target (?a\<lparr>tau := 1\<rparr>))))
        = weights (critic_approximator ?a)"
    "weights (target_critic_approximator (snd (update_target (?a\<lparr>tau := 0\<rparr>))))
        = weights (target_critic_approximator ?a)"
    by blast+
  then show ?thesis
    unfolding v by simp
qed

section \<open>Properties of fit: routing by task id\<close>

lemma np_unique_props:
  "set (np_unique s) = set s" "sorted (np_unique s)" "distinct (np_unique s)"
  by (simp_all add: np_unique_def)

lemma argwhere_filter:
  "map (\<lambda>idx. dataset ! idx) (np_argwhere_eq (map tr_task_id dataset) g)
     = filter (\<lambda>d. tr_task_id d = g) dataset"
proof -
  have "filter (\<lambda>d. tr_task_id d = g) dataset
          = filter (\<lambda>d. tr_task_id d = g) (map (nth dataset) [0..<length dataset])"
    by (simp add: map_nth)
  also have "\<dots> = map (nth dataset)
                     (filter ((\<lambda>d. tr_task_id d = g) \<circ> nth dataset) [0..<length dataset])"
    by (simp only: filter_map)
  also have "filter ((\<lambda>d. tr_task_id d = g) \<circ> nth dataset) [0..<length dataset]
               = np_argwhere_eq (map tr_task_id dataset) g"
    unfolding np_argwhere_eq_def by (rule filter_cong) auto
  finally show ?thesis by simp
qed

lemma route_length: "length (snd (route games s dataset rms)) = length rms"
  by (induction games arbitrary: rms) (auto simp: Let_def split: option.splits)

lemma route_frame:
  assumes "j < length rms" and "\<forall>g\<in>set games. py_index (length rms) g \<noteq> Some j"
  shows "snd (route games s dataset rms) ! j = rms ! j"
  using assms
  by (induction games arbitrary: rms) (auto simp: Let_def split: option.splits)

lemma route_error:
  "fst (route games s dataset rms)
     = (if \<exists>g\<in>set games. py_index (length rms) g = None then Some IndexError else None)"
  by (induction games arbitrary: rms) (auto simp: Let_def split: option.splits)

lemma py_index_nonneg:
  "0 \<le> g \<Longrightarrow> py_index n g = (if g < int n then Some (nat g) else None)"
  by (simp add: py_index_def)

lemma route_nonneg:
  assumes "sorted games" and "distinct games" and "\<forall>g\<in>set games. 0 \<le> g"
      and "j < length rms"
  shows "snd (route games s dataset rms) ! j
           = (if int j \<in> set games
              then rm_add (map (\<lambda>idx. dataset ! idx) (np_argwhere_eq s (int j))) (rms ! j)
              else rms ! j)"
  using assms
proof (induction games arbitrary: rms)
  case Nil
  then show ?case by simp
next
  case (Cons g games)
  show ?case
  proof (cases "g < int (length rms)")
    case True
    with Cons.prems have pi: "py_index (length rms) g = Some (nat g)"
      by (simp add: py_index_nonneg)
    let ?rms = "rms[nat g := rm_add (map (\<lambda>idx. dataset ! idx) (np_argwhere_eq s g)) (rms ! nat g)]"
    have ih: "snd (route games s dataset ?rms) ! j
           = (if int j \<in> set games
              then rm_add (map (\<lambda>idx. dataset ! idx) (np_argwhere_eq s (int j))) (?rms ! j)
              else ?rms ! j)"
      using Cons.prems by (intro Cons.IH) auto
    show ?thesis
    proof (cases "int j = g")
      case True
      then have "int j \<notin> set games" using Cons.prems by auto
      with ih pi True Cons.prems show ?thesis
        by (auto simp: Let_def)
    next
      case False
      then have "nat g \<noteq> j" using Cons.prems by auto
      with ih pi False show ?thesis
        by (auto simp: Let_def)
    qed
  next
    case False
    with Cons.prems have pi: "py_index (length rms) g = None"
      by (simp add: py_index_nonneg)
    have "\<forall>h\<in>set (g # games). int (length rms) \<le> h"
      using False Cons.prems(1) by auto
    then have "int j \<notin> set (g # games)"
      using Cons.prems(4) by fastforce
    with pi show ?thesis
      by (simp add: Let_def)
  qed
qed

lemma route_dataset_nonneg:
  assumes "\<forall>d\<in>set dataset. 0 \<le> tr_task_id d" and "j < length rms"
  shows "snd (route_dataset dataset rms) ! j
           = (if int j \<in> tr_task_id ` set dataset
              then rm_add (filter (\<lambda>d. tr_task_id d = int j) dataset) (rms ! j)
              else rms ! j)"
proof -
  have "snd (route (np_unique (map tr_task_id dataset)) (map tr_task_id dataset) dataset rms) ! j
           = (if int j \<in> set (np_unique (map tr_task_id dataset))
              then rm_add (map (\<lambda>idx. dataset ! idx)
                     (np_argwhere_eq (map tr_task_id dataset) (int j))) (rms ! j)
              else rms ! j)"
    using assms by (intro route_nonneg) (auto simp: np_unique_props)
  then show ?thesis
    by (simp add: route_dataset_def Let_def np_unique_props argwhere_filter)
qed

lemma route_dataset_error:
  "fst (route_dataset dataset rms)
     = (if \<exists>d\<in>set dataset. py_index (length rms) (tr_task_id d) = None
        then Some IndexError else None)"
  by (simp add: route_dataset_def Let_def route_error np_unique_props)

lemma route_dataset_length: "length (snd (route_dataset dataset rms)) = length rms"
  by (simp add: route_dataset_def Let_def route_length)

lemma py_index_None: "py_index n g = None \<longleftrightarrow> g < - int n \<or> int n \<le> g"
  by (auto simp: py_index_def)


lemma route_general:
  assumes "sorted games" and "distinct games" and "j < length rms"
  shows "snd (route games s dataset rms) ! j
           = (if \<exists>g\<in>set games. g < - int (length rms) then rms ! j
              else (let r = (if int j - int (length rms) \<in> set games
                             then rm_add (map (\<lambda>idx. dataset ! idx)
                                    (np_argwhere_eq s (int j - int (length rms)))) (rms ! j)
                             else rms ! j)
                    in if int j \<in> set games
                       then rm_add (map (\<lambda>idx. dataset ! idx) (np_argwhere_eq s (int j))) r
                       else r))"
  using assms
proof (induction games arbitrary: rms)
  case Nil
  then show ?case by simp
next
  case (Cons g games)
  let ?G = "int (length rms)"
  let ?sel = "\<lambda>g. map (\<lambda>idx. dataset ! idx) (np_argwhere_eq s g)"
  from Cons.prems have later: "\<forall>h\<in>set games. g < h" and sg: "sorted games"
    and dg: "distinct games" and ng: "g \<notin> set games"
    by (auto simp: less_le)
  consider (low) "g < - ?G" | (neg) "- ?G \<le> g" "g < 0" | (pos) "0 \<le> g" "g < ?G"
    | (high) "?G \<le> g"
    by linarith
  then show ?case
  proof cases
    case low
    then have "py_index (length rms) g = None" by (simp add: py_index_def)
    with low show ?thesis by (simp add: Let_def)
  next
    case high
    then have pi: "py_index (length rms) g = None" by (simp add: py_index_def)
    from high later have all: "\<forall>h\<in>set (g # games). ?G \<le> h" by auto
    from all have a: "\<not> (\<exists>h\<in>set (g # games). h < - ?G)" by fastforce
    from all Cons.prems(3) have b: "int j - ?G \<notin> set (g # games)" by fastforce
    from all Cons.prems(3) have c: "int j \<notin> set (g # games)" by fastforce
    from pi have "snd (route (g # games) s dataset rms) ! j = rms ! j"
      by (simp add: Let_def)
    then show ?thesis
      unfolding if_not_P[OF a] Let_def if_not_P[OF b] if_not_P[OF c] .
  next
    case neg
    let ?k = "nat (?G + g)"
    let ?rms = "rms[?k := rm_add (?sel g) (rms ! ?k)]"
    from neg have pi: "py_index (length rms) g = Some ?k" by (simp add: py_index_def)
    from neg have k: "?k < length rms" by linarith
    from neg later have a': "\<not> (\<exists>h\<in>set games. h < - int (length ?rms))" by fastforce
    from neg later have a: "\<not> (\<exists>h\<in>set (g # games). h < - ?G)" by fastforce
    from Cons.prems(3) have j': "j < length ?rms" by simp
    have ih: "snd (route games s dataset ?rms) ! j
           = (let r = (if int j - ?G \<in> set games
                       then rm_add (?sel (int j - ?G)) (?rms ! j) else ?rms ! j)
              in if int j \<in> set games then rm_add (?sel (int j)) r else r)"
      using Cons.IH[OF sg dg j'] a' by simp
    from neg have jg: "int j \<noteq> g" by linarith
    have step: "snd (route (g # games) s dataset rms) = snd (route games s dataset ?rms)"
      using pi by (simp add: Let_def)
    show ?thesis
    proof (cases "j = ?k")
      case True
      with neg have e: "int j - ?G = g" by linarith
      from True k have r: "?rms ! j = rm_add (?sel g) (rms ! j)" by simp
      from ih e ng jg r show ?thesis
        unfolding step if_not_P[OF a] by (simp add: Let_def)
    next
      case False
      with neg have e: "int j - ?G \<noteq> g" by linarith
      from False have r: "?rms ! j = rms ! j" by simp
      from ih e jg r show ?thesis
        unfolding step if_not_P[OF a] by (simp add: Let_def)
    qed
  next
    case pos
    let ?k = "nat g"
    let ?rms = "rms[?k := rm_add (?sel g) (rms ! ?k)]"
    from pos have pi: "py_index (length rms) g = Some ?k" by (simp add: py_index_def)
    from pos have k: "?k < length rms" by linarith
    from pos later have all: "\<forall>h\<in>set (g # games). 0 \<le> h" by auto
    from all have a': "\<not> (\<exists>h\<in>set games. h < - int (length ?rms))" by fastforce
    from all have a: "\<not> (\<exists>h\<in>set (g # games). h < - ?G)" by fastforce
    from all Cons.prems(3) have b: "int j - ?G \<notin> set (g # games)" by fastforce
    then have b': "int j - ?G \<notin> set games" by simp
    from Cons.prems(3) have j': "j < length ?rms" by simp
    have ih: "snd (route games s dataset ?rms) ! j
           = (if int j \<in> set games then rm_add (?sel (int j)) (?rms ! j) else ?rms ! j)"
      using Cons.IH[OF sg dg j'] a' b' by (simp add: Let_def)
    have step: "snd (route (g # games) s dataset rms) = snd (route games s dataset ?rms)"
      using pi by (simp add: Let_def)
    show ?thesis
    proof (cases "j = ?k")
      case True
      with pos have e: "int j = g" by linarith
      from True k have r: "?rms ! j = rm_add (?sel g) (rms ! j)" by simp
      from ih e ng r show ?thesis
        unfolding step if_not_P[OF a] Let_def if_not_P[OF b] by simp
    next
      case False
      with pos have e: "int j \<noteq> g" by linarith
      from False have r: "?rms ! j = rms ! j" by simp
      from ih e r show ?thesis
        unfolding step if_not_P[OF a] Let_def if_not_P[OF b] by simp
    qed
  qed
qed

lemma route_dataset_general:
  assumes "j < length rms"
  shows "snd (route_dataset dataset rms) ! j
           = (if \<exists>d\<in>set dataset. tr_task_id d < - int (length rms) then rms ! j
              else (let r = (if int j - int (length rms) \<in> tr_task_id ` set dataset
                             then rm_add (filter (\<lambda>d. tr_task_id d = int j - int (length rms))
                                            dataset) (rms ! j)
                             else rms ! j)
                    in if int j \<in> tr_task_id ` set dataset
                       then rm_add (filter (\<lambda>d. tr_task_id d = int j) dataset) r
                       else r))"
proof -
  have e: "(\<exists>g\<in>set (np_unique (map tr_task_id dataset)). g < - int (length rms))
             \<longleftrightarrow> (\<exists>d\<in>set dataset. tr_task_id d < - int (length rms))"
    by (auto simp: np_unique_props)
  show ?thesis
    unfolding route_dataset_def Let_def
      route_general[OF np_unique_props(2,3) assms, of "map tr_task_id dataset"] e
    by (simp add: np_unique_props argwhere_filter Let_def)
qed

lemma route_dataset_frame:
  assumes "j < length rms"
      and "int j \<notin> tr_task_id ` set dataset"
      and "int j - int (length rms) \<notin> tr_task_id ` set dataset"
  shows "snd (route_dataset dataset rms) ! j = rms ! j"
  using assms by (simp add: route_dataset_general Let_def)

lemma route_dataset_rm_gets:
  assumes "j < length rms"
  shows "rm_gets (snd (route_dataset dataset rms) ! j) = rm_gets (rms ! j)"
  using assms by (simp add: route_dataset_general Let_def rm_add_def)

text \<open>
  C10, as the code has it. The task id of a transition is its field \<open>d[0][0]\<close>, and the
  sub-batch for a task is selected by it. The buffer is then picked by Python's list
  indexing, so with \<open>G\<close> buffers the ids \<open>j\<close> and \<open>j - G\<close> both reach buffer \<open>j\<close>. For every
  dataset, a buffer \<open>j\<close> for which neither \<open>j\<close> nor \<open>j - G\<close> occurs among the task ids is
  identical to what it was (also when the phase ends with an error). When no id is below
  \<open>-G\<close>, buffer \<open>j\<close> has received one \<open>add\<close> with the transitions tagged \<open>j - G\<close> if that id
  occurs, then one with the transitions tagged \<open>j\<close> if that id occurs, each in dataset
  order; when some id is below \<open>-G\<close> the phase raises before any \<open>add\<close>. For a dataset
  without negative ids, exactly the buffers whose index occurs among the ids receive an
  \<open>add\<close>, with their own transitions.
\<close>

theorem routing_frame:
  "length (snd (route_dataset dataset rms)) = length rms
   \<and> (\<forall>j < length rms.
         int j \<notin> tr_task_id ` set dataset
         \<and> int j - int (length rms) \<notin> tr_task_id ` set dataset
         \<longrightarrow> snd (route_dataset dataset rms) ! j = rms ! j)
   \<and> (\<forall>j < length rms.
         snd (route_dataset dataset rms) ! j
           = (if \<exists>d\<in>set dataset. tr_task_id d < - int (length rms) then rms ! j
              else (let r = (if int j - int (length rms) \<in> tr_task_id ` set dataset
                             then rm_add (filter (\<lambda>d. tr_task_id d = int j - int (length rms))
                                            dataset) (rms ! j)
                             else rms ! j)
                    in if int j \<in> tr_task_id ` set dataset
                       then rm_add (filter (\<lambda>d. tr_task_id d = int j) dataset) r
                       else r)))
   \<and> ((\<forall>d\<in>set dataset. 0 \<le> tr_task_id d) \<longrightarrow>
         (\<forall>j < length rms.
            snd (route_dataset dataset rms) ! j
              = (if int j \<in> tr_task_id ` set dataset
                 then rm_add (filter (\<lambda>d. tr_task_id d = int j) dataset) (rms ! j)
                 else rms ! j)))"
proof -
  have c2: "\<forall>j < length rms.
         int j \<notin> tr_task_id ` set dataset
         \<and> int j - int (length rms) \<notin> tr_task_id ` set dataset
         \<longrightarrow> snd (route_dataset dataset rms) ! j = rms ! j"
    using route_dataset_frame by blast
  have c3: "\<forall>j < length rms.
         snd (route_dataset dataset rms) ! j
           = (if \<exists>d\<in>set dataset. tr_task_id d < - int (length rms) then rms ! j
              else (let r = (if int j - int (length rms) \<in> tr_task_id ` set dataset
                             then rm_add (filter (\<lambda>d. tr_task_id d = int j - int (length rms))
                                            dataset) (rms ! j)
                             else rms ! j)
                    in if int j \<in> tr_task_id ` set dataset
                       then rm_add (filter (\<lambda>d. tr_task_id d = int j) dataset) r
                       else r))"
    using route_dataset_general by blast
  have c4: "(\<forall>d\<in>set dataset. 0 \<le> tr_task_id d) \<longrightarrow>
         (\<forall>j < length rms.
            snd (route_dataset dataset rms) ! j
              = (if int j \<in> tr_task_id ` set dataset
                 then rm_add (filter (\<lambda>d. tr_task_id d = int j) dataset) (rms ! j)
                 else rms ! j))"
    using route_dataset_nonneg by blast
  from route_dataset_length c2 c3 c4 show ?thesis by blast
qed

text \<open>
  Two buffers and the task ids 1 and \<open>-1\<close>: buffer 0 is untouched, buffer 1 receives the
  transition tagged \<open>-1\<close> and then the one tagged 1.
\<close>

theorem routing_frame_witness:
  "snd (route_dataset [example_transition 1, example_transition (- 1)]
          (replay_memory example_agent)) ! 0
     = replay_memory example_agent ! 0
   \<and> snd (route_dataset [example_transition 1, example_transition (- 1)]
            (replay_memory example_agent)) ! 1
     = rm_add [example_transition 1]
         (rm_add [example_transition (- 1)] (replay_memory example_agent ! 1))"
proof -
  have l: "length (replay_memory example_agent) = 2"
    by (simp add: example_agent_def)
  note R = routing_frame[of "[example_transition 1, example_transition (- 1)]"
      "replay_memory example_agent", unfolded l]
  from R have f: "\<forall>j < 2.
         int j \<notin> tr_task_id ` set [example_transition 1, example_transition (- 1)]
         \<and> int j - int 2 \<notin> tr_task_id ` set [example_transition 1, example_transition (- 1)]
         \<longrightarrow> snd (route_dataset [example_transition 1, example_transition (- 1)]
                    (replay_memory example_agent)) ! j
               = replay_memory example_agent ! j"
    by blast
  from R have g: "\<forall>j < 2.
         snd (route_dataset [example_transition 1, example_transition (- 1)]
                (replay_memory example_agent)) ! j
           = (if \<exists>d\<in>set [example_transition 1, example_transition (- 1)].
                    tr_task_id d < - int 2
              then replay_memory example_agent ! j
              else (let r = (if int j - int 2
                                  \<in> tr_task_id ` set [example_transition 1, example_transition (- 1)]
                             then rm_add (filter (\<lambda>d. tr_task_id d = int j - int 2)
                                            [example_transition 1, example_transition (- 1)])
                                    (replay_memory example_agent ! j)
                             else replay_memory example_agent ! j)
                    in if int j \<in> tr_task_id ` set [example_transition 1, example_transition (- 1)]
                       then rm_add (filter (\<lambda>d. tr_task_id d = int j)
                                      [example_transition 1, example_transition (- 1)]) r
                       else r))"
    by blast
  from f[rule_format, of 0] g[rule_format, of 1] show ?thesis
    by (simp add: example_transition_def)
qed

text \<open>
  The claim fails for a negative id: with two buffers, a dataset whose only task id is
  \<open>-2\<close> adds its transition to buffer 0, although no transition is tagged 0.
\<close>

theorem negative_id_adds_to_other_buffer:
  "tr_task_id (example_transition (- 2)) \<noteq> 0
   \<and> rm_entries (replay_memory example_agent ! 0) = []
   \<and> rm_entries (snd (route_dataset [example_transition (- 2)]
        (replay_memory example_agent)) ! 0) = [example_transition (- 2)]"
  by code_simp

lemma fit_route_error:
  assumes "fst (route_dataset dataset (replay_memory a)) = Some e"
  shows "fit env rnd a dataset
           = (Some e, a\<lparr>replay_memory := snd (route_dataset dataset (replay_memory a))\<rparr>)"
  using assms by (cases "route_dataset dataset (replay_memory a)") (simp add: fit_def)

text \<open>
  C5, as the code has it. There is no check of task ids and no \<open>InvalidTaskIdError\<close>:
  \<open>self._replay_memory[g]\<close> is a Python list index. For a dataset with a task id
  \<open>g \<ge> G\<close> or \<open>g < -G\<close>, \<open>fit\<close> raises \<open>IndexError\<close> in the routing loop and changes
  nothing but replay buffers (no update cycle runs); when moreover no id is negative, at
  that point every buffer whose index occurs among the ids holds its own transitions and
  every other buffer is unchanged, so nothing has gone to a wrong buffer.
\<close>

theorem invalid_task_id_raises_IndexError:
  assumes "\<exists>d\<in>set dataset. tr_task_id d < - int (length (replay_memory a))
                            \<or> int (length (replay_memory a)) \<le> tr_task_id d"
  shows "fst (fit env rnd a dataset) = Some IndexError
    \<and> snd (fit env rnd a dataset)
        = a\<lparr>replay_memory := snd (route_dataset dataset (replay_memory a))\<rparr>
    \<and> ((\<forall>d\<in>set dataset. 0 \<le> tr_task_id d) \<longrightarrow>
         (\<forall>j < length (replay_memory a).
            replay_memory (snd (fit env rnd a dataset)) ! j
              = (if int j \<in> tr_task_id ` set dataset
                 then rm_add (filter (\<lambda>d. tr_task_id d = int j) dataset) (replay_memory a ! j)
                 else replay_memory a ! j)))"
proof -
  from assms have "fst (route_dataset dataset (replay_memory a)) = Some IndexError"
    by (simp add: route_dataset_error py_index_None)
  from fit_route_error[OF this] show ?thesis
    by (simp add: route_dataset_nonneg)
qed

text \<open>
  Task ids 5 and 0 with two buffers.
\<close>

theorem invalid_task_id_raises_IndexError_witness:
  "fst (fit example_regressors example_draws example_agent
          [example_transition 5, example_transition 0]) = Some IndexError
   \<and> replay_memory (snd (fit example_regressors example_draws example_agent
          [example_transition 5, example_transition 0])) ! 0
     = rm_add [example_transition 0] (replay_memory example_agent ! 0)
   \<and> replay_memory (snd (fit example_regressors example_draws example_agent
          [example_transition 5, example_transition 0])) ! 1
     = replay_memory example_agent ! 1"
proof -
  have l: "length (replay_memory example_agent) = 2"
    by (simp add: example_agent_def)
  have h: "\<exists>d\<in>set [example_transition 5, example_transition 0].
             tr_task_id d < - int (length (replay_memory example_agent))
             \<or> int (length (replay_memory example_agent)) \<le> tr_task_id d"
    unfolding l by (simp add: example_transition_def)
  have n: "\<forall>d\<in>set [example_transition 5, example_transition 0]. 0 \<le> tr_task_id d"
    by (simp add: example_transition_def)
  let ?r = "snd (fit example_regressors example_draws example_agent
                   [example_transition 5, example_transition 0])"
  from invalid_task_id_raises_IndexError[OF h, of example_regressors example_draws] n
  have e: "fst (fit example_regressors example_draws example_agent
             [example_transition 5, example_transition 0]) = Some IndexError"
    and r: "\<forall>j < length (replay_memory example_agent).
            replay_memory ?r ! j
              = (if int j \<in> tr_task_id ` set [example_transition 5, example_transition 0]
                 then rm_add (filter (\<lambda>d. tr_task_id d = int j)
                        [example_transition 5, example_transition 0])
                        (replay_memory example_agent ! j)
                 else replay_memory example_agent ! j)"
    by blast+
  from r[rule_format, of 0] r[rule_format, of 1] e show ?thesis
    unfolding l by (simp add: example_transition_def)
qed

text \<open>
  The claim fails for a negative id within \<open>-G..-1\<close>: with two buffers, a transition
  tagged \<open>-1\<close> raises nothing and is stored in buffer 1.
\<close>

theorem negative_task_id_wraps_around:
  "fst (fit example_regressors example_draws example_agent [example_transition (- 1)]) = None
   \<and> rm_entries (replay_memory (snd (fit example_regressors example_draws example_agent
        [example_transition (- 1)])) ! 1) = [example_transition (- 1)]"
  by code_simp

section \<open>Properties of fit: the combined batch\<close>

lemma get_slice_length: "length (get_slice start stop xs) = min (stop - start) (length xs - start)"
  by (simp add: get_slice_def)

lemma get_slice_nth:
  "start + j < length xs \<Longrightarrow> j < stop - start \<Longrightarrow> get_slice start stop xs ! j = xs ! (start + j)"
  by (simp add: get_slice_def)

lemma set_slice_SomeD:
  assumes "set_slice start (start + n) vs xs = Some ys" and "length vs = n"
  shows "length ys = length xs"
    and "n = 0 \<or> start + n \<le> length xs"
    and "r < length xs \<Longrightarrow>
           ys ! r = (if start \<le> r \<and> r < start + n then vs ! (r - start) else xs ! r)"
proof -
  from assms have len: "n = min n (length xs - start)"
    and ys: "ys = take start xs @ vs @ drop (start + n) xs"
    by (auto simp: set_slice_def get_slice_length split: if_splits)
  from len show b: "n = 0 \<or> start + n \<le> length xs"
    by (cases "n = 0") (auto simp: min_def split: if_splits)
  from b ys assms(2) show "length ys = length xs"
    by auto
  show "r < length xs \<Longrightarrow>
           ys ! r = (if start \<le> r \<and> r < start + n then vs ! (r - start) else xs ! r)"
    using b ys assms(2) by (auto simp: nth_append min_def)
qed

lemma set_block_SomeD:
  assumes "set_block start (start + n) k vs m = Some m'" and "length vs = n"
  shows "length m' = length m"
    and "n = 0 \<or> start + n \<le> length m"
    and "r < length m \<Longrightarrow>
           m' ! r = (if start \<le> r \<and> r < start + n
                     then set_cols k (vs ! (r - start)) (m ! r) else m ! r)"
    and "r < length m \<Longrightarrow> start \<le> r \<Longrightarrow> r < start + n \<Longrightarrow>
           length (vs ! (r - start)) = min k (length (m ! r))"
proof -
  let ?old = "get_slice start (start + n) m"
  from assms have all2: "list_all2 (\<lambda>v row. length v = min k (length row)) vs ?old"
    and m': "m' = take start m @ map2 (set_cols k) vs ?old @ drop (start + n) m"
    by (auto simp: set_block_def Let_def split: if_splits)
  from all2 have lo: "length ?old = n"
    using assms(2) by (simp add: list_all2_lengthD)
  then show b: "n = 0 \<or> start + n \<le> length m"
    by (cases "n = 0") (auto simp: get_slice_length min_def split: if_splits)
  from b m' lo assms(2) show "length m' = length m"
    by auto
  have old_nth: "j < n \<Longrightarrow> ?old ! j = m ! (start + j)" for j
    using b by (auto simp: get_slice_def)
  show "r < length m \<Longrightarrow>
           m' ! r = (if start \<le> r \<and> r < start + n
                     then set_cols k (vs ! (r - start)) (m ! r) else m ! r)"
    using b m' lo assms(2) old_nth[of "r - start"]
    by (auto simp: nth_append min_def)
  show "r < length m \<Longrightarrow> start \<le> r \<Longrightarrow> r < start + n \<Longrightarrow>
           length (vs ! (r - start)) = min k (length (m ! r))"
    using list_all2_nthD[OF all2, of "r - start"] assms(2) old_nth[of "r - start"]
    by auto
qed


lemma write_state_idxs_None:
  assumes "write_state_idxs i a = (None, a')"
  shows "\<exists>ys. set_slice (batch_size a * i) (batch_size a * i + batch_size a)
                 (replicate (batch_size a) (int i)) (state_idxs a) = Some ys
              \<and> a' = a\<lparr>state_idxs := ys\<rparr>"
  using assms by (auto simp: write_state_idxs_def Let_def split: option.splits)

lemma write_next_state_idxs_None:
  assumes "write_next_state_idxs i a = (None, a')"
  shows "\<exists>ys. set_slice (batch_size a * i) (batch_size a * i + batch_size a)
                 (replicate (batch_size a) (int i)) (next_state_idxs a) = Some ys
              \<and> a' = a\<lparr>next_state_idxs := ys\<rparr>"
  using assms by (auto simp: write_next_state_idxs_def Let_def split: option.splits)

lemma write_reward_None:
  assumes "write_reward i v a = (None, a')"
  shows "\<exists>ys. set_slice (batch_size a * i) (batch_size a * i + batch_size a) v (reward a) = Some ys
              \<and> a' = a\<lparr>reward := ys\<rparr>"
  using assms by (auto simp: write_reward_def Let_def split: option.splits)

lemma write_absorbing_None:
  assumes "write_absorbing i v a = (None, a')"
  shows "\<exists>ys. set_slice (batch_size a * i) (batch_size a * i + batch_size a)
                 (map of_bool v) (absorbing a) = Some ys
              \<and> a' = a\<lparr>absorbing := ys\<rparr>"
  using assms by (auto simp: write_absorbing_def Let_def split: option.splits)

lemma write_action_None:
  assumes "write_action i v a = (None, a')"
  shows "\<exists>m. i < length (n_actions_per_head a)
            \<and> set_block (batch_size a * i) (batch_size a * i + batch_size a)
                 (n_actions_per_head a ! i) v (action a) = Some m
            \<and> a' = a\<lparr>action := m\<rparr>"
  using assms by (auto simp: write_action_def Let_def split: option.splits if_splits)

lemma set_block_nd_Inr:
  assumes "set_block_nd start stop k vs arr = Inr arr'"
  shows "\<exists>m m'. arr = Arr2 m \<and> arr' = Arr2 m' \<and> set_block start stop k vs m = Some m'"
  using assms by (auto simp: set_block_nd_def split: ndarray.splits option.splits)

lemma write_state_None:
  assumes "write_state i v a = (None, a')"
  shows "\<exists>m m'. i < length (n_input_per_mdp a) \<and> state a = Arr2 m
            \<and> set_block (batch_size a * i) (batch_size a * i + batch_size a)
                 (n_input_per_mdp a ! i) v m = Some m'
            \<and> a' = a\<lparr>state := Arr2 m'\<rparr>"
  using assms
  by (auto simp: write_state_def Let_def split: sum.splits if_splits dest!: set_block_nd_Inr)

lemma write_next_state_None:
  assumes "write_next_state i v a = (None, a')"
  shows "\<exists>m m'. i < length (n_input_per_mdp a) \<and> next_state a = Arr2 m
            \<and> set_block (batch_size a * i) (batch_size a * i + batch_size a)
                 (n_input_per_mdp a ! i) v m = Some m'
            \<and> a' = a\<lparr>next_state := Arr2 m'\<rparr>"
  using assms
  by (auto simp: write_next_state_def Let_def split: sum.splits if_splits dest!: set_block_nd_Inr)

lemma run_steps_Cons_None:
  "run_steps (f # fs) s = (None, s') \<longleftrightarrow> (\<exists>s1. f s = (None, s1) \<and> run_steps fs s1 = (None, s'))"
  by (cases "f s") (auto split: option.splits)

lemma rm_get_Inr:
  assumes "fst (rm_get n rnd rm) = Inr smp"
  shows "rm_initialized rm" and "rm_entries rm \<noteq> [] \<or> n = 0"
    and "smp = map (\<lambda>j. rm_entries rm ! (rnd j mod length (rm_entries rm))) [0..<n]"
    and "snd (rm_get n rnd rm) = rm\<lparr>rm_gets := Suc (rm_gets rm)\<rparr>"
  using assms by (auto simp: rm_get_def Let_def split: if_splits)

lemma rm_get_snd: "snd (rm_get n rnd rm) = rm\<lparr>rm_gets := Suc (rm_gets rm)\<rparr>"
  by (simp add: rm_get_def Let_def)


lemma gather_task_form:
  assumes g: "gather_task rnd i a = (None, a')"
  shows "\<exists>ys1 m1 m1' ac rw ys2 m2 m2' ab.
     rm_initialized (replay_memory a ! i)
     \<and> (rm_entries (replay_memory a ! i) \<noteq> [] \<or> batch_size a = 0)
     \<and> i < length (n_input_per_mdp a) \<and> i < length (n_actions_per_head a)
     \<and> set_slice (batch_size a * i) (batch_size a * i + batch_size a)
          (replicate (batch_size a) (int i)) (state_idxs a) = Some ys1
     \<and> state a = Arr2 m1
     \<and> set_block (batch_size a * i) (batch_size a * i + batch_size a) (n_input_per_mdp a ! i)
          (map (\<lambda>j. tr_state (drawn rnd a i j)) [0..<batch_size a]) m1 = Some m1'
     \<and> set_block (batch_size a * i) (batch_size a * i + batch_size a)
          (n_actions_per_head a ! i)
          (map (\<lambda>j. tr_action (drawn rnd a i j)) [0..<batch_size a]) (action a) = Some ac
     \<and> set_slice (batch_size a * i) (batch_size a * i + batch_size a)
          (map (\<lambda>j. tr_reward (drawn rnd a i j)) [0..<batch_size a]) (reward a) = Some rw
     \<and> set_slice (batch_size a * i) (batch_size a * i + batch_size a)
          (replicate (batch_size a) (int i)) (next_state_idxs a) = Some ys2
     \<and> next_state a = Arr2 m2
     \<and> set_block (batch_size a * i) (batch_size a * i + batch_size a) (n_input_per_mdp a ! i)
          (map (\<lambda>j. tr_next_state (drawn rnd a i j)) [0..<batch_size a]) m2 = Some m2'
     \<and> set_slice (batch_size a * i) (batch_size a * i + batch_size a)
          (map (\<lambda>j. of_bool (tr_absorbing (drawn rnd a i j))) [0..<batch_size a])
          (absorbing a) = Some ab
     \<and> a' = a\<lparr>replay_memory := (replay_memory a)
                  [i := (replay_memory a ! i)\<lparr>rm_gets := Suc (rm_gets (replay_memory a ! i))\<rparr>],
              state_idxs := ys1, state := Arr2 m1', action := ac, reward := rw,
              next_state_idxs := ys2, next_state := Arr2 m2', absorbing := ab\<rparr>"
proof -
  let ?rm = "replay_memory a ! i"
  let ?a1 = "a\<lparr>replay_memory := (replay_memory a)
                  [i := snd (rm_get (batch_size a) (rnd i) ?rm)]\<rparr>"
  from g obtain smp where smp: "fst (rm_get (batch_size a) (rnd i) ?rm) = Inr smp"
    and rs: "run_steps [write_state_idxs i,
                        write_state i (map tr_state smp),
                        write_action i (map tr_action smp),
                        write_reward i (map tr_reward smp),
                        write_next_state_idxs i,
                        write_next_state i (map tr_next_state smp),
                        write_absorbing i (map tr_absorbing smp)] ?a1 = (None, a')"
    by (auto simp: gather_task_def Let_def split: sum.splits)
  note G = rm_get_Inr[OF smp]
  have smp_eq: "smp = map (drawn rnd a i) [0..<batch_size a]"
    unfolding G(3) drawn_def by simp
  from rs obtain a2 a3 a4 a5 a6 a7 where
    s1: "write_state_idxs i ?a1 = (None, a2)"
    and s2: "write_state i (map tr_state smp) a2 = (None, a3)"
    and s3: "write_action i (map tr_action smp) a3 = (None, a4)"
    and s4: "write_reward i (map tr_reward smp) a4 = (None, a5)"
    and s5: "write_next_state_idxs i a5 = (None, a6)"
    and s6: "write_next_state i (map tr_next_state smp) a6 = (None, a7)"
    and s7: "write_absorbing i (map tr_absorbing smp) a7 = (None, a')"
    unfolding run_steps_Cons_None by auto
  from write_state_idxs_None[OF s1] obtain ys1 where
    y1: "set_slice (batch_size a * i) (batch_size a * i + batch_size a)
          (replicate (batch_size a) (int i)) (state_idxs a) = Some ys1"
    and a2: "a2 = ?a1\<lparr>state_idxs := ys1\<rparr>"
    by auto
  from write_state_None[OF s2] obtain m1 m1' where
    i1: "i < length (n_input_per_mdp a)" and st: "state a = Arr2 m1"
    and b1: "set_block (batch_size a * i) (batch_size a * i + batch_size a)
               (n_input_per_mdp a ! i) (map tr_state smp) m1 = Some m1'"
    and a3: "a3 = a2\<lparr>state := Arr2 m1'\<rparr>"
    unfolding a2 by auto
  from write_action_None[OF s3] obtain ac where
    i2: "i < length (n_actions_per_head a)"
    and b2: "set_block (batch_size a * i) (batch_size a * i + batch_size a)
               (n_actions_per_head a ! i) (map tr_action smp) (action a) = Some ac"
    and a4: "a4 = a3\<lparr>action := ac\<rparr>"
    unfolding a3 a2 by auto
  from write_reward_None[OF s4] obtain rw where
    y2: "set_slice (batch_size a * i) (batch_size a * i + batch_size a)
           (map tr_reward smp) (reward a) = Some rw"
    and a5: "a5 = a4\<lparr>reward := rw\<rparr>"
    unfolding a4 a3 a2 by auto
  from write_next_state_idxs_None[OF s5] obtain ys2 where
    y3: "set_slice (batch_size a * i) (batch_size a * i + batch_size a)
          (replicate (batch_size a) (int i)) (next_state_idxs a) = Some ys2"
    and a6: "a6 = a5\<lparr>next_state_idxs := ys2\<rparr>"
    unfolding a5 a4 a3 a2 by auto
  from write_next_state_None[OF s6] obtain m2 m2' where
    nst: "next_state a = Arr2 m2"
    and b3: "set_block (batch_size a * i) (batch_size a * i + batch_size a)
               (n_input_per_mdp a ! i) (map tr_next_state smp) m2 = Some m2'"
    and a7: "a7 = a6\<lparr>next_state := Arr2 m2'\<rparr>"
    unfolding a6 a5 a4 a3 a2 by auto
  from write_absorbing_None[OF s7] obtain ab where
    y4: "set_slice (batch_size a * i) (batch_size a * i + batch_size a)
           (map of_bool (map tr_absorbing smp)) (absorbing a) = Some ab"
    and a': "a' = a7\<lparr>absorbing := ab\<rparr>"
    unfolding a7 a6 a5 a4 a3 a2 by auto
  have "a' = a\<lparr>replay_memory := (replay_memory a)
                  [i := (replay_memory a ! i)\<lparr>rm_gets := Suc (rm_gets (replay_memory a ! i))\<rparr>],
              state_idxs := ys1, state := Arr2 m1', action := ac, reward := rw,
              next_state_idxs := ys2, next_state := Arr2 m2', absorbing := ab\<rparr>"
    unfolding a' a7 a6 a5 a4 a3 a2 G(4) by simp
  with G(1,2) i1 i2 y1 st b1 b2 y2 y3 nst b3 y4 show ?thesis
    unfolding smp_eq by (simp add: comp_def)
qed

lemma gather_task_rows:
  assumes g: "gather_task rnd i a = (None, a')" and i: "i < length (replay_memory a)"
  shows "same_config a a'"
    and "same_shape a a'"
    and "\<forall>j < batch_size a. has_row a (batch_size a * i + j)"
    and "\<forall>j < batch_size a. row_filled (drawn rnd a i j) i a a' (batch_size a * i + j)"
    and "\<forall>r. has_row a r \<longrightarrow> \<not> (batch_size a * i \<le> r \<and> r < batch_size a * i + batch_size a)
            \<longrightarrow> row_kept a a' r"
    and "rm_gets (replay_memory a' ! i) = Suc (rm_gets (replay_memory a ! i))"
    and "\<forall>k < length (replay_memory a). k \<noteq> i \<longrightarrow> replay_memory a' ! k = replay_memory a ! k"
    and "rm_initialized (replay_memory a ! i)"
    and "i < length (n_input_per_mdp a)" and "i < length (n_actions_per_head a)"
proof -
  let ?B = "batch_size a"
  let ?s = "?B * i"
  from gather_task_form[OF g] obtain ys1 m1 m1' ac rw ys2 m2 m2' ab where
    ini: "rm_initialized (replay_memory a ! i)"
    and i1: "i < length (n_input_per_mdp a)" and i2: "i < length (n_actions_per_head a)"
    and y1: "set_slice ?s (?s + ?B) (replicate ?B (int i)) (state_idxs a) = Some ys1"
    and st: "state a = Arr2 m1"
    and b1: "set_block ?s (?s + ?B) (n_input_per_mdp a ! i)
          (map (\<lambda>j. tr_state (drawn rnd a i j)) [0..<?B]) m1 = Some m1'"
    and b2: "set_block ?s (?s + ?B) (n_actions_per_head a ! i)
          (map (\<lambda>j. tr_action (drawn rnd a i j)) [0..<?B]) (action a) = Some ac"
    and y2: "set_slice ?s (?s + ?B)
          (map (\<lambda>j. tr_reward (drawn rnd a i j)) [0..<?B]) (reward a) = Some rw"
    and y3: "set_slice ?s (?s + ?B) (replicate ?B (int i)) (next_state_idxs a) = Some ys2"
    and nst: "next_state a = Arr2 m2"
    and b3: "set_block ?s (?s + ?B) (n_input_per_mdp a ! i)
          (map (\<lambda>j. tr_next_state (drawn rnd a i j)) [0..<?B]) m2 = Some m2'"
    and y4: "set_slice ?s (?s + ?B)
          (map (\<lambda>j. of_bool (tr_absorbing (drawn rnd a i j))) [0..<?B]) (absorbing a) = Some ab"
    and a': "a' = a\<lparr>replay_memory := (replay_memory a)
                  [i := (replay_memory a ! i)\<lparr>rm_gets := Suc (rm_gets (replay_memory a ! i))\<rparr>],
              state_idxs := ys1, state := Arr2 m1', action := ac, reward := rw,
              next_state_idxs := ys2, next_state := Arr2 m2', absorbing := ab\<rparr>"
    by blast
  note Y1 = set_slice_SomeD[OF y1, simplified]
  note Y2 = set_slice_SomeD[OF y2, simplified]
  note Y3 = set_slice_SomeD[OF y3, simplified]
  note Y4 = set_slice_SomeD[OF y4, simplified]
  note B1 = set_block_SomeD[OF b1, simplified]
  note B2 = set_block_SomeD[OF b2, simplified]
  note B3 = set_block_SomeD[OF b3, simplified]
  show "rm_initialized (replay_memory a ! i)" by (rule ini)
  show "i < length (n_input_per_mdp a)" by (rule i1)
  show "i < length (n_actions_per_head a)" by (rule i2)
  show "same_config a a'"
    unfolding a' same_config_def using i by (auto simp: nth_list_update)
  show "same_shape a a'"
    unfolding a' same_shape_def using Y1(1) Y2(1) Y3(1) Y4(1) B1(1) B2(1) B3(1) st nst
    by simp
  show "rm_gets (replay_memory a' ! i) = Suc (rm_gets (replay_memory a ! i))"
    unfolding a' using i by simp
  show "\<forall>k < length (replay_memory a). k \<noteq> i \<longrightarrow> replay_memory a' ! k = replay_memory a ! k"
    unfolding a' by simp
  have inb: "?s + j < length (state_idxs a) \<and> ?s + j < length m1 \<and> ?s + j < length (action a)
      \<and> ?s + j < length (reward a) \<and> ?s + j < length (next_state_idxs a)
      \<and> ?s + j < length m2 \<and> ?s + j < length (absorbing a)" if "j < ?B" for j
    using that Y1(2) Y2(2) Y3(2) Y4(2) B1(2) B2(2) B3(2) by auto
  show "\<forall>j < ?B. has_row a (?s + j)"
    using inb st nst by (simp add: has_row_def)
  show "\<forall>j < ?B. row_filled (drawn rnd a i j) i a a' (?s + j)"
  proof (intro allI impI)
    fix j assume j: "j < ?B"
    note I = inb[OF j]
    show "row_filled (drawn rnd a i j) i a a' (?s + j)"
      unfolding row_filled_def a'
      using j I st nst Y1(3)[of "?s + j"] Y2(3)[of "?s + j"] Y3(3)[of "?s + j"]
        Y4(3)[of "?s + j"] B1(3)[of "?s + j"] B2(3)[of "?s + j"] B3(3)[of "?s + j"]
        B1(4)[of "?s + j"] B2(4)[of "?s + j"] B3(4)[of "?s + j"]
      by simp
  qed
  show "\<forall>r. has_row a r \<longrightarrow> \<not> (?s \<le> r \<and> r < ?s + ?B) \<longrightarrow> row_kept a a' r"
  proof (intro allI impI)
    fix r assume h: "has_row a r" and o: "\<not> (?s \<le> r \<and> r < ?s + ?B)"
    show "row_kept a a' r"
      unfolding row_kept_def a'
      using h o st nst Y1(3)[of r] Y2(3)[of r] Y3(3)[of r]
        Y4(3)[of r] B1(3)[of r] B2(3)[of r] B3(3)[of r]
      by (auto simp: has_row_def)
  qed
qed


lemma same_config_refl: "same_config a a"
  by (simp add: same_config_def)

lemma same_config_trans: "same_config a b \<Longrightarrow> same_config b c \<Longrightarrow> same_config a c"
  unfolding same_config_def
  by (intro conjI allI impI; (simp; fail)?) (metis (no_types, lifting) replay_memory.surjective replay_memory.update_convs(4))

lemma same_shape_refl: "same_shape a a"
  by (simp add: same_shape_def)

lemma same_shape_trans: "same_shape a b \<Longrightarrow> same_shape b c \<Longrightarrow> same_shape a c"
  by (simp add: same_shape_def)

lemma row_kept_refl: "row_kept a a r"
  by (simp add: row_kept_def)

lemma row_kept_trans: "row_kept a b r \<Longrightarrow> row_kept b c r \<Longrightarrow> row_kept a c r"
  by (simp add: row_kept_def)

lemma has_row_same_shape: "same_shape a b \<Longrightarrow> has_row b r = has_row a r"
  by (simp add: has_row_def same_shape_def)

lemma same_config_entries:
  "same_config a b \<Longrightarrow> i < length (replay_memory a) \<Longrightarrow>
     rm_entries (replay_memory b ! i) = rm_entries (replay_memory a ! i)
     \<and> rm_initial_size (replay_memory b ! i) = rm_initial_size (replay_memory a ! i)
     \<and> rm_max_size (replay_memory b ! i) = rm_max_size (replay_memory a ! i)"
  unfolding same_config_def
  by (metis replay_memory.select_convs(1,2,3) replay_memory.surjective replay_memory.update_convs(4))

lemma same_config_drawn:
  "same_config a b \<Longrightarrow> i < length (replay_memory a) \<Longrightarrow> drawn rnd b i j = drawn rnd a i j"
  by (simp add: drawn_def same_config_entries)

lemma same_config_initialized:
  "same_config a b \<Longrightarrow> i < length (replay_memory a) \<Longrightarrow>
     rm_initialized (replay_memory b ! i) = rm_initialized (replay_memory a ! i)"
  by (simp add: rm_initialized_def same_config_entries)

lemma row_filled_then_kept:
  "row_filled t i a b r \<Longrightarrow> row_kept b c r \<Longrightarrow> row_filled t i a c r"
  by (simp add: row_filled_def row_kept_def)

lemma row_kept_then_filled:
  "row_kept a b r \<Longrightarrow> same_config a b \<Longrightarrow> row_filled t i b c r \<Longrightarrow> row_filled t i a c r"
  by (simp add: row_filled_def row_kept_def same_config_def)

lemma block_unique:
  assumes "(j::nat) < B" and "B * i \<le> B * i' + j" and "B * i' + j < B * i + B"
  shows "i = i'"
proof -
  have "(B * i' + j) div B = i'"
    using assms(1) by simp
  moreover have "(B * i' + j) div B = i"
    using assms by (intro div_nat_eqI) auto
  ultimately show ?thesis by simp
qed

lemma run_gather_rows:
  assumes "run_steps (map (gather_task rnd) is) a = (None, a')"
      and "distinct is" and "\<forall>i\<in>set is. i < length (replay_memory a)"
  shows "same_config a a' \<and> same_shape a a'
    \<and> (\<forall>i\<in>set is. \<forall>j < batch_size a.
          has_row a (batch_size a * i + j)
          \<and> row_filled (drawn rnd a i j) i a a' (batch_size a * i + j))
    \<and> (\<forall>r. has_row a r
            \<longrightarrow> (\<forall>i\<in>set is. \<not> (batch_size a * i \<le> r \<and> r < batch_size a * i + batch_size a))
            \<longrightarrow> row_kept a a' r)
    \<and> (\<forall>i\<in>set is. rm_gets (replay_memory a' ! i) = Suc (rm_gets (replay_memory a ! i))
                     \<and> rm_initialized (replay_memory a ! i)
                     \<and> i < length (n_input_per_mdp a) \<and> i < length (n_actions_per_head a))
    \<and> (\<forall>k < length (replay_memory a). k \<notin> set is \<longrightarrow>
          replay_memory a' ! k = replay_memory a ! k)"
  using assms
proof (induction "is" arbitrary: a)
  case Nil
  then show ?case
    by (simp add: same_config_refl same_shape_refl row_kept_refl)
next
  case (Cons i "is")
  let ?B = "batch_size a"
  from Cons.prems(1)
  have "run_steps (gather_task rnd i # map (gather_task rnd) is) a = (None, a')"
    by simp
  then obtain a1 where
    g: "gather_task rnd i a = (None, a1)"
    and rest: "run_steps (map (gather_task rnd) is) a1 = (None, a')"
    unfolding run_steps_Cons_None by blast
  from Cons.prems have i: "i < length (replay_memory a)" and ni: "i \<notin> set is"
    and d: "distinct is" and lt: "\<forall>k\<in>set is. k < length (replay_memory a)"
    by auto
  note G = gather_task_rows[OF g i]
  have B1: "batch_size a1 = ?B" and L1: "length (replay_memory a1) = length (replay_memory a)"
    and N1: "n_input_per_mdp a1 = n_input_per_mdp a"
    and N2: "n_actions_per_head a1 = n_actions_per_head a"
    using G(1) by (simp_all add: same_config_def)
  from lt L1 have lt1: "\<forall>k\<in>set is. k < length (replay_memory a1)" by simp
  note IH = Cons.IH[OF rest d lt1, unfolded B1 N1 N2]
  from IH have sc: "same_config a1 a'" and ss: "same_shape a1 a'"
    and fill: "\<forall>k\<in>set is. \<forall>j < ?B. has_row a1 (?B * k + j)
                 \<and> row_filled (drawn rnd a1 k j) k a1 a' (?B * k + j)"
    and kept: "\<forall>r. has_row a1 r
            \<longrightarrow> (\<forall>k\<in>set is. \<not> (?B * k \<le> r \<and> r < ?B * k + ?B)) \<longrightarrow> row_kept a1 a' r"
    and gets: "\<forall>k\<in>set is. rm_gets (replay_memory a' ! k) = Suc (rm_gets (replay_memory a1 ! k))
                     \<and> rm_initialized (replay_memory a1 ! k)
                     \<and> k < length (n_input_per_mdp a) \<and> k < length (n_actions_per_head a)"
    and others: "\<forall>k < length (replay_memory a1). k \<notin> set is \<longrightarrow>
          replay_memory a' ! k = replay_memory a1 ! k"
    by blast+
  have c1: "same_config a a'" using G(1) sc by (rule same_config_trans)
  have c2: "same_shape a a'" using G(2) ss by (rule same_shape_trans)
  have c3: "has_row a (?B * k + j) \<and> row_filled (drawn rnd a k j) k a a' (?B * k + j)"
    if k: "k \<in> set (i # is)" and j: "j < ?B" for k j
  proof (cases "k = i")
    case True
    have hr: "has_row a (?B * i + j)" and rf: "row_filled (drawn rnd a i j) i a a1 (?B * i + j)"
      using G(3,4) j by auto
    have "\<forall>k\<in>set is. \<not> (?B * k \<le> ?B * i + j \<and> ?B * i + j < ?B * k + ?B)"
      using block_unique[OF j] ni by blast
    with kept hr have "row_kept a1 a' (?B * i + j)"
      by (simp add: has_row_same_shape[OF G(2)])
    with rf hr show ?thesis
      unfolding True by (blast intro: row_filled_then_kept)
  next
    case False
    with k have kin: "k \<in> set is" by simp
    with lt have kl: "k < length (replay_memory a)" by simp
    from fill kin j have hr1: "has_row a1 (?B * k + j)"
      and rf: "row_filled (drawn rnd a1 k j) k a1 a' (?B * k + j)"
      by auto
    from hr1 have hr: "has_row a (?B * k + j)"
      by (simp add: has_row_same_shape[OF G(2)])
    have "\<not> (?B * i \<le> ?B * k + j \<and> ?B * k + j < ?B * i + ?B)"
      using block_unique[OF j] False by blast
    with G(5) hr have "row_kept a a1 (?B * k + j)" by blast
    from row_kept_then_filled[OF this G(1) rf] hr show ?thesis
      by (simp add: same_config_drawn[OF G(1) kl])
  qed
  have c4: "row_kept a a' r"
    if hr: "has_row a r"
      and out: "\<forall>k\<in>set (i # is). \<not> (?B * k \<le> r \<and> r < ?B * k + ?B)" for r
  proof -
    from G(5) hr out have "row_kept a a1 r" by simp
    moreover from kept hr out have "row_kept a1 a' r"
      by (simp add: has_row_same_shape[OF G(2)])
    ultimately show ?thesis by (rule row_kept_trans)
  qed
  have c5: "rm_gets (replay_memory a' ! k) = Suc (rm_gets (replay_memory a ! k))
                     \<and> rm_initialized (replay_memory a ! k)
                     \<and> k < length (n_input_per_mdp a) \<and> k < length (n_actions_per_head a)"
    if k: "k \<in> set (i # is)" for k
  proof (cases "k = i")
    case True
    from others i ni L1 have "replay_memory a' ! i = replay_memory a1 ! i" by simp
    with G(6,8,9,10) show ?thesis unfolding True by simp
  next
    case False
    with k have kin: "k \<in> set is" by simp
    with lt have kl: "k < length (replay_memory a)" by simp
    from G(7) kl False have e: "replay_memory a1 ! k = replay_memory a ! k" by simp
    from gets kin have "rm_gets (replay_memory a' ! k) = Suc (rm_gets (replay_memory a1 ! k))
                     \<and> rm_initialized (replay_memory a1 ! k)
                     \<and> k < length (n_input_per_mdp a) \<and> k < length (n_actions_per_head a)"
      by blast
    then show ?thesis unfolding e .
  qed
  have c6: "replay_memory a' ! k = replay_memory a ! k"
    if "k < length (replay_memory a)" and "k \<notin> set (i # is)" for k
    using that others G(7) L1 by simp
  from c1 c2 c3 c4 c5 c6 show ?case by blast
qed

lemma np_mul_SomeD:
  assumes "np_mul xs ys = Some v"
  shows "length ys = length xs" and "length v = length xs"
    and "j < length xs \<Longrightarrow> v ! j = xs ! j * ys ! j"
  using assms by (auto simp: np_mul_def split: if_splits)


lemma next_q_iteration:
  assumes step: "next_q_loop (i # is) a q out = Inr out'"
      and fit: "batch_size a * i + batch_size a \<le> length out"
  shows "\<exists>mid. next_q_loop is a q mid = Inr out' \<and> length mid = length out
           \<and> i < length (gamma a)
           \<and> (\<forall>j < batch_size a.
                 mid ! (batch_size a * i + j)
                   = q ! (batch_size a * i + j) * gamma a ! i
                     * (if list_ex (\<lambda>x. x \<noteq> 0)
                             (get_slice (batch_size a * i) (batch_size a * i + batch_size a)
                                (absorbing a))
                        then 1 - absorbing a ! (batch_size a * i + j) else 1))
           \<and> (\<forall>r < length out.
                 \<not> (batch_size a * i \<le> r \<and> r < batch_size a * i + batch_size a)
                 \<longrightarrow> mid ! r = out ! r)"
proof -
  let ?B = "batch_size a"
  let ?s = "?B * i"
  let ?ab = "get_slice ?s (?s + ?B) (absorbing a)"
  let ?any = "list_ex (\<lambda>x. x \<noteq> 0) ?ab"
  let ?vs = "map (\<lambda>x. x * gamma a ! i) (get_slice ?s (?s + ?B) q)"
  from step have gi: "i < length (gamma a)"
    by (auto simp: Let_def split: if_splits)
  from step gi obtain out1 where s1: "set_slice ?s (?s + ?B) ?vs out = Some out1"
    and rest: "(if ?any
                then (case np_mul (get_slice ?s (?s + ?B) out1) (map (\<lambda>x. 1 - x) ?ab) of
                          None \<Rightarrow> Inl ValueError
                        | Some v \<Rightarrow>
                            (case set_slice ?s (?s + ?B) v out1 of
                               None \<Rightarrow> Inl ValueError
                             | Some out2 \<Rightarrow> next_q_loop is a q out2))
                else next_q_loop is a q out1) = Inr out'"
    by (auto simp: Let_def split: option.splits)
  from s1 fit have lvs: "length ?vs = ?B"
    by (auto simp: set_slice_def get_slice_length split: if_splits)
  note S1 = set_slice_SomeD[OF s1 lvs]
  have qj: "?s + j < length q \<and> ?vs ! j = q ! (?s + j) * gamma a ! i" if "j < ?B" for j
  proof -
    from lvs have "min ?B (length q - ?s) = ?B"
      by (simp add: get_slice_length)
    with that have "?s + j < length q" by (auto simp: min_def split: if_splits)
    with that lvs show ?thesis
      by (simp add: get_slice_nth)
  qed
  have o1: "out1 ! (?s + j) = q ! (?s + j) * gamma a ! i" if "j < ?B" for j
    using S1(3)[of "?s + j"] fit that qj[OF that] by simp
  show ?thesis
  proof (cases ?any)
    case False
    with rest have "next_q_loop is a q out1 = Inr out'" by simp
    with S1 gi o1 False show ?thesis
      by (intro exI[of _ out1]) auto
  next
    case True
    with rest obtain v out2 where
      v: "np_mul (get_slice ?s (?s + ?B) out1) (map (\<lambda>x. 1 - x) ?ab) = Some v"
      and s2: "set_slice ?s (?s + ?B) v out1 = Some out2"
      and r2: "next_q_loop is a q out2 = Inr out'"
      by (auto split: option.splits)
    have lo1: "length (get_slice ?s (?s + ?B) out1) = ?B"
      using fit S1(1) by (simp add: get_slice_length)
    note V = np_mul_SomeD[OF v, unfolded lo1]
    have lv: "length v = ?B" by (rule V(2))
    note S2 = set_slice_SomeD[OF s2 lv]
    have abj: "?s + j < length (absorbing a)" if "j < ?B" for j
      using V(1) that by (auto simp: get_slice_length min_def split: if_splits)
    have vj: "v ! j = q ! (?s + j) * gamma a ! i * (1 - absorbing a ! (?s + j))"
      if "j < ?B" for j
      using V(3)[OF that] that o1[OF that] abj[OF that] fit S1(1) V(1)
      by (simp add: get_slice_nth)
    have "out2 ! (?s + j) = q ! (?s + j) * gamma a ! i * (1 - absorbing a ! (?s + j))"
      if "j < ?B" for j
      using S2(3)[of "?s + j"] fit S1(1) that vj[OF that] by simp
    moreover have "out2 ! r = out ! r"
      if "r < length out" and "\<not> (?s \<le> r \<and> r < ?s + ?B)" for r
      using S2(3)[of r] S1(3)[of r] S1(1) that by simp
    ultimately show ?thesis
      using r2 S1(1) S2(1) gi True
      by (intro exI[of _ out2]) auto
  qed
qed


lemma next_q_loop_rows:
  assumes "next_q_loop is a q out = Inr out'" and "distinct is"
      and "\<forall>i\<in>set is. batch_size a * i + batch_size a \<le> length out"
  shows "length out' = length out
    \<and> (\<forall>i\<in>set is. i < length (gamma a)
          \<and> (\<forall>j < batch_size a.
                out' ! (batch_size a * i + j)
                  = q ! (batch_size a * i + j) * gamma a ! i
                    * (if list_ex (\<lambda>x. x \<noteq> 0)
                            (get_slice (batch_size a * i) (batch_size a * i + batch_size a)
                               (absorbing a))
                       then 1 - absorbing a ! (batch_size a * i + j) else 1)))
    \<and> (\<forall>r < length out.
          (\<forall>i\<in>set is. \<not> (batch_size a * i \<le> r \<and> r < batch_size a * i + batch_size a))
          \<longrightarrow> out' ! r = out ! r)"
  using assms
proof (induction "is" arbitrary: out)
  case Nil
  then show ?case by simp
next
  case (Cons i "is")
  let ?B = "batch_size a"
  let ?f = "\<lambda>i j. q ! (?B * i + j) * gamma a ! i
                    * (if list_ex (\<lambda>x. x \<noteq> 0) (get_slice (?B * i) (?B * i + ?B) (absorbing a))
                       then 1 - absorbing a ! (?B * i + j) else 1)"
  from Cons.prems have fit: "?B * i + ?B \<le> length out" and ni: "i \<notin> set is"
    and d: "distinct is"
    by auto
  from next_q_iteration[OF Cons.prems(1) fit] obtain mid where
    rest: "next_q_loop is a q mid = Inr out'" and lm: "length mid = length out"
    and gi: "i < length (gamma a)"
    and blk: "\<forall>j < ?B. mid ! (?B * i + j) = ?f i j"
    and oth: "\<forall>r < length out. \<not> (?B * i \<le> r \<and> r < ?B * i + ?B) \<longrightarrow> mid ! r = out ! r"
    by blast
  from Cons.prems(3) lm have fits: "\<forall>k\<in>set is. ?B * k + ?B \<le> length mid" by simp
  from Cons.IH[OF rest d fits] have
    l: "length out' = length mid"
    and fill: "\<forall>k\<in>set is. k < length (gamma a) \<and> (\<forall>j < ?B. out' ! (?B * k + j) = ?f k j)"
    and kept: "\<forall>r < length mid. (\<forall>k\<in>set is. \<not> (?B * k \<le> r \<and> r < ?B * k + ?B))
                 \<longrightarrow> out' ! r = mid ! r"
    by blast+
  have c1: "length out' = length out" using l lm by simp
  have c2: "k < length (gamma a) \<and> (\<forall>j < ?B. out' ! (?B * k + j) = ?f k j)"
    if k: "k \<in> set (i # is)" for k
  proof (cases "k = i")
    case True
    have "out' ! (?B * i + j) = ?f i j" if j: "j < ?B" for j
    proof -
      have "\<forall>k\<in>set is. \<not> (?B * k \<le> ?B * i + j \<and> ?B * i + j < ?B * k + ?B)"
        using block_unique[OF j] ni by blast
      moreover have "?B * i + j < length mid" using fit j lm by simp
      ultimately have "out' ! (?B * i + j) = mid ! (?B * i + j)"
        using kept by blast
      with blk j show ?thesis by simp
    qed
    with gi show ?thesis unfolding True by blast
  next
    case False
    with k fill show ?thesis by simp
  qed
  have c3: "out' ! r = out ! r"
    if "r < length out"
      and "\<forall>k\<in>set (i # is). \<not> (?B * k \<le> r \<and> r < ?B * k + ?B)" for r
    using that kept oth lm by simp
  from c1 c2 c3 show ?case by blast
qed

lemma next_q_rows:
  assumes "next_q env a = Inr out" and "i < n_games a" and "j < batch_size a"
  shows "length out = batch_size a * n_games a"
    and "i < length (gamma a)"
    and "out ! (batch_size a * i + j)
           = target_q env a ! (batch_size a * i + j) * gamma a ! i
             * (if list_ex (\<lambda>x. x \<noteq> 0)
                     (get_slice (batch_size a * i) (batch_size a * i + batch_size a)
                        (absorbing a))
                then 1 - absorbing a ! (batch_size a * i + j) else 1)"
proof -
  let ?B = "batch_size a"
  have "\<forall>k\<in>set [0..<n_games a]. ?B * k + ?B \<le> length (replicate (?B * n_games a) (0::real))"
  proof
    fix k assume "k \<in> set [0..<n_games a]"
    then have "Suc k \<le> n_games a" by simp
    then have "?B * Suc k \<le> ?B * n_games a" by (rule mult_le_mono2)
    then show "?B * k + ?B \<le> length (replicate (?B * n_games a) (0::real))" by simp
  qed
  from next_q_loop_rows[OF assms(1)[unfolded next_q_def] _ this] assms(2,3)
  show "length out = batch_size a * n_games a"
    and "i < length (gamma a)"
    and "out ! (batch_size a * i + j)
           = target_q env a ! (batch_size a * i + j) * gamma a ! i
             * (if list_ex (\<lambda>x. x \<noteq> 0)
                     (get_slice (batch_size a * i) (batch_size a * i + batch_size a)
                        (absorbing a))
                then 1 - absorbing a ! (batch_size a * i + j) else 1)"
    by auto
qed

lemma take_set_cols:
  "length v = min k (length row) \<Longrightarrow> take k (set_cols k v row) = v"
  by (auto simp: set_cols_def min_def split: if_splits)

lemma assemble_rows:
  assumes "assemble rnd a = (None, a')" and "i < length (replay_memory a)"
      and "j < batch_size a"
  shows "same_config a a'" and "same_shape a a'"
    and "has_row a (batch_size a * i + j)"
    and "row_filled (drawn rnd a i j) i a a' (batch_size a * i + j)"
    and "rm_gets (replay_memory a' ! i) = Suc (rm_gets (replay_memory a ! i))"
    and "rm_initialized (replay_memory a ! i)"
    and "i < length (n_input_per_mdp a)" and "i < length (n_actions_per_head a)"
  using run_gather_rows[OF assms(1)[unfolded assemble_def]] assms(2,3)
  by auto

lemma list_ex_get_slice:
  assumes "start + n \<le> length xs"
  shows "list_ex P (get_slice start (start + n) xs) \<longleftrightarrow> (\<exists>j < n. P (xs ! (start + j)))"
proof -
  have l: "length (get_slice start (start + n) xs) = n"
    using assms by (simp add: get_slice_length)
  have "list_ex P (get_slice start (start + n) xs)
          \<longleftrightarrow> (\<exists>j < n. P (get_slice start (start + n) xs ! j))"
  proof
    assume "list_ex P (get_slice start (start + n) xs)"
    then obtain x where "x \<in> set (get_slice start (start + n) xs)" and "P x"
      by (auto simp: list_ex_iff)
    then show "\<exists>j < n. P (get_slice start (start + n) xs ! j)"
      using l by (auto simp: in_set_conv_nth)
  next
    assume "\<exists>j < n. P (get_slice start (start + n) xs ! j)"
    then obtain j where "j < n" and "P (get_slice start (start + n) xs ! j)" by blast
    then show "list_ex P (get_slice start (start + n) xs)"
      using l nth_mem[of j "get_slice start (start + n) xs"] by (auto simp: list_ex_iff)
  qed
  also have "\<dots> \<longleftrightarrow> (\<exists>j < n. P (xs ! (start + j)))"
    using assms by (auto simp: get_slice_nth)
  finally show ?thesis .
qed

lemma assemble_absorbing_block:
  assumes "assemble rnd a = (None, a')" and "i < length (replay_memory a)"
      and "j < batch_size a"
  shows "batch_size a * i + batch_size a \<le> length (absorbing a')"
proof -
  let ?B = "batch_size a"
  from assms(3) have "?B - 1 < ?B" by simp
  from assemble_rows(2,3)[OF assms(1,2) this]
  have "?B * i + (?B - 1) < length (absorbing a')"
    by (simp add: has_row_def same_shape_def)
  with assms(3) show ?thesis by simp
qed

lemma next_q_assembled:
  assumes asm: "assemble rnd a = (None, a')" and nq: "next_q env a' = Inr out"
      and g: "n_games a = length (replay_memory a)"
      and i: "i < length (replay_memory a)" and j: "j < batch_size a"
  shows "out ! (batch_size a * i + j)
           = target_q env a' ! (batch_size a * i + j) * gamma a ! i
             * (if \<exists>j' < batch_size a. absorbing a' ! (batch_size a * i + j') \<noteq> 0
                then 1 - absorbing a' ! (batch_size a * i + j) else 1)"
    and "length out = batch_size a * length (replay_memory a)"
proof -
  from assemble_rows(1)[OF asm i j] have c: "batch_size a' = batch_size a"
    "n_games a' = n_games a" "gamma a' = gamma a"
    by (simp_all add: same_config_def)
  from i g c have i': "i < n_games a'" by simp
  from j c have j': "j < batch_size a'" by simp
  note N = next_q_rows[OF nq i' j', unfolded c]
  from N(1) g show "length out = batch_size a * length (replay_memory a)" by simp
  from N(3) show "out ! (batch_size a * i + j)
           = target_q env a' ! (batch_size a * i + j) * gamma a ! i
             * (if \<exists>j' < batch_size a. absorbing a' ! (batch_size a * i + j') \<noteq> 0
                then 1 - absorbing a' ! (batch_size a * i + j) else 1)"
    unfolding list_ex_get_slice[OF assemble_absorbing_block[OF asm i j]] .
qed

text \<open>
  C9. After an assembly that ran to its end, for every task \<open>i\<close> and every \<open>j\<close> below the
  batch size, row \<open>B * i + j\<close> of the combined batch holds the \<open>j\<close>-th transition drawn
  from task \<open>i\<close>'s buffer: both task-index arrays are \<open>i\<close> there (every row \<open>r\<close> below \<open>B * G\<close> carries \<open>r div B\<close>, so an
  index is \<open>i\<close> on exactly the rows of block \<open>i\<close>),
  the leading columns of the state, action and next-state rows are the transition's,
  and reward and absorbing flag are the transition's. \<open>_next_q\<close> works on the same
  blocks: the entry of row \<open>B * i + j\<close> is the target critic's output there times task
  \<open>i\<close>'s discount, masked by \<open>1 - absorbing\<close> when the block has an absorbing row.
\<close>

theorem block_layout:
  assumes "assemble rnd a = (None, a')" and "i < length (replay_memory a)"
      and "j < batch_size a"
  shows "state_idxs a' ! (batch_size a * i + j) = int i
    \<and> next_state_idxs a' ! (batch_size a * i + j) = int i
    \<and> take (n_input_per_mdp a ! i) (rows (state a') ! (batch_size a * i + j))
        = tr_state (drawn rnd a i j)
    \<and> take (n_actions_per_head a ! i) (action a' ! (batch_size a * i + j))
        = tr_action (drawn rnd a i j)
    \<and> reward a' ! (batch_size a * i + j) = tr_reward (drawn rnd a i j)
    \<and> take (n_input_per_mdp a ! i) (rows (next_state a') ! (batch_size a * i + j))
        = tr_next_state (drawn rnd a i j)
    \<and> absorbing a' ! (batch_size a * i + j) = of_bool (tr_absorbing (drawn rnd a i j))
    \<and> (\<forall>r < batch_size a * length (replay_memory a).
          state_idxs a' ! r = int (r div batch_size a)
          \<and> next_state_idxs a' ! r = int (r div batch_size a))
    \<and> (\<forall>out. n_games a = length (replay_memory a) \<longrightarrow> next_q env a' = Inr out \<longrightarrow>
          out ! (batch_size a * i + j)
            = target_q env a' ! (batch_size a * i + j) * gamma a ! i
              * (if \<exists>j' < batch_size a. absorbing a' ! (batch_size a * i + j') \<noteq> 0
                 then 1 - absorbing a' ! (batch_size a * i + j) else 1))"
proof -
  let ?B = "batch_size a"
  note R = assemble_rows[OF assms]
  from R(4) have rows: "state_idxs a' ! (batch_size a * i + j) = int i
    \<and> next_state_idxs a' ! (batch_size a * i + j) = int i
    \<and> take (n_input_per_mdp a ! i) (rows (state a') ! (batch_size a * i + j))
        = tr_state (drawn rnd a i j)
    \<and> take (n_actions_per_head a ! i) (action a' ! (batch_size a * i + j))
        = tr_action (drawn rnd a i j)
    \<and> reward a' ! (batch_size a * i + j) = tr_reward (drawn rnd a i j)
    \<and> take (n_input_per_mdp a ! i) (rows (next_state a') ! (batch_size a * i + j))
        = tr_next_state (drawn rnd a i j)
    \<and> absorbing a' ! (batch_size a * i + j) = of_bool (tr_absorbing (drawn rnd a i j))"
    by (simp add: row_filled_def take_set_cols)
  have idx: "state_idxs a' ! r = int (r div ?B) \<and> next_state_idxs a' ! r = int (r div ?B)"
    if r: "r < ?B * length (replay_memory a)" for r
  proof -
    from r have i': "r div ?B < length (replay_memory a)"
      by (simp add: less_mult_imp_div_less mult.commute)
    from assms(3) have j': "r mod ?B < ?B" by simp
    from assemble_rows(4)[OF assms(1) i' j'] show ?thesis
      by (simp add: row_filled_def)
  qed
  from rows idx next_q_assembled(1)[OF assms(1) _ _ assms(2,3)] show ?thesis
    by blast
qed


lemma example_assemble: "fst (assemble example_draws example_routed) = None"
  by code_simp


text \<open>
  Row 3 of the example is the second transition drawn for task 1; its block has no
  absorbing row, so \<open>_next_q\<close> gives the critic's 8 times the discount 1/4.
\<close>

theorem block_layout_witness:
  "fst (assemble example_draws example_routed) = None
   \<and> state_idxs (snd (assemble example_draws example_routed)) ! 3 = 1
   \<and> next_state_idxs (snd (assemble example_draws example_routed)) ! 3 = 1
   \<and> take 3 (rows (state (snd (assemble example_draws example_routed))) ! 3) = [4, 5, 6]
   \<and> reward (snd (assemble example_draws example_routed)) ! 3 = 4
   \<and> next_q example_regressors (snd (assemble example_draws example_routed))
       = Inr [4, 0, 2, 2]
   \<and> [4, 0, 2, 2 :: real] ! 3 = 8 * (1 / 4) * 1"
proof -
  let ?a' = "snd (assemble example_draws example_routed)"
  have asm: "assemble example_draws example_routed = (None, ?a')"
    using example_assemble by (simp add: prod_eq_iff)
  have i: "1 < length (replay_memory example_routed)" by code_simp
  have j: "1 < batch_size example_routed" by code_simp
  have g: "n_games example_routed = length (replay_memory example_routed)" by code_simp
  have nq: "next_q example_regressors ?a' = Inr [4, 0, 2, 2]" by code_simp
  have v: "batch_size example_routed = 2" "n_input_per_mdp example_routed ! 1 = 3"
    "tr_state (drawn example_draws example_routed 1 1) = [4, 5, 6]"
    "tr_reward (drawn example_draws example_routed 1 1) = 4"
    "target_q example_regressors ?a' ! 3 = 8" "gamma example_routed ! 1 = 1 / 4"
    "absorbing ?a' ! 2 = 0" "absorbing ?a' ! 3 = 0"
    by code_simp+
  have na: "\<not> (\<exists>j' < batch_size example_routed.
                absorbing ?a' ! (batch_size example_routed * 1 + j') \<noteq> 0)"
  proof
    assume "\<exists>j' < batch_size example_routed.
                absorbing ?a' ! (batch_size example_routed * 1 + j') \<noteq> 0"
    then obtain j' where "j' < 2" and nz: "absorbing ?a' ! (2 * 1 + j') \<noteq> 0"
      unfolding v(1) by blast
    then have "j' = 0 \<or> j' = 1" by auto
    then show False
    proof
      assume "j' = 0"
      with nz v(7) show False by simp
    next
      assume "j' = 1"
      with nz v(8) show False by simp
    qed
  qed
  note L = block_layout[OF asm i j, of example_regressors]
  from L have
    "state_idxs ?a' ! (batch_size example_routed * 1 + 1) = int 1
     \<and> next_state_idxs ?a' ! (batch_size example_routed * 1 + 1) = int 1
     \<and> take (n_input_per_mdp example_routed ! 1)
          (rows (state ?a') ! (batch_size example_routed * 1 + 1))
        = tr_state (drawn example_draws example_routed 1 1)
     \<and> reward ?a' ! (batch_size example_routed * 1 + 1)
        = tr_reward (drawn example_draws example_routed 1 1)"
    by blast
  then have rows: "state_idxs ?a' ! 3 = 1 \<and> next_state_idxs ?a' ! 3 = 1
     \<and> take 3 (rows (state ?a') ! 3) = [4, 5, 6] \<and> reward ?a' ! 3 = 4"
    unfolding v by simp
  from L g nq have E:
    "[4, 0, 2, 2 :: real] ! (batch_size example_routed * 1 + 1)
       = target_q example_regressors ?a' ! (batch_size example_routed * 1 + 1)
         * gamma example_routed ! 1
         * (if \<exists>j' < batch_size example_routed.
                 absorbing ?a' ! (batch_size example_routed * 1 + j') \<noteq> 0
            then 1 - absorbing ?a' ! (batch_size example_routed * 1 + 1) else 1)"
    by blast
  have out: "[4, 0, 2, 2 :: real] ! 3 = 8 * (1 / 4) * 1"
    using E[unfolded if_not_P[OF na] v(1)] v(5,6) by simp
  from rows nq out example_assemble show ?thesis by blast
qed



section \<open>Properties of fit: the padding invariant\<close>

lemma set_slice_length:
  "set_slice start stop vs xs = Some ys \<Longrightarrow> length ys = length xs"
  by (auto simp: set_slice_def get_slice_length min_def max_def split: if_splits)

lemma in_block_div:
  assumes "B * i \<le> r" and "r < B * i + B"
  shows "r div B = (i::nat)"
  using assms by (intro div_nat_eqI) auto

lemma zero_from_set_cols:
  assumes "zero_from k row" and "length v = min k (length row)"
  shows "zero_from k (set_cols k v row)"
  using assms
  by (auto simp: zero_from_def set_cols_def nth_append min_def split: if_splits)

lemma zero_from_mono: "zero_from 0 row \<Longrightarrow> zero_from k row"
  by (simp add: zero_from_def)

lemma paddedI:
  assumes "\<And>r. r < length (rows (state a)) \<Longrightarrow>
             zero_from (width_in a (r div batch_size a)) (rows (state a) ! r)"
      and "\<And>r. r < length (action a) \<Longrightarrow>
             zero_from (width_act a (r div batch_size a)) (action a ! r)"
      and "\<And>r. r < length (rows (next_state a)) \<Longrightarrow>
             zero_from (width_in a (r div batch_size a)) (rows (next_state a) ! r)"
      and "\<And>r. r < length (state_idxs a) \<Longrightarrow>
             state_idxs a ! r = int (r div batch_size a)
             \<or> ((r < length (rows (state a)) \<longrightarrow> zero_from 0 (rows (state a) ! r))
                 \<and> (r < length (action a) \<longrightarrow> zero_from 0 (action a ! r)))"
      and "\<And>r. r < length (next_state_idxs a) \<Longrightarrow>
             next_state_idxs a ! r = int (r div batch_size a)
             \<or> (r < length (rows (next_state a)) \<longrightarrow> zero_from 0 (rows (next_state a) ! r))"
  shows "padded a"
  unfolding padded_def using assms by blast

lemma paddedD:
  assumes "padded a"
  shows "r < length (rows (state a)) \<Longrightarrow>
             zero_from (width_in a (r div batch_size a)) (rows (state a) ! r)"
      and "r < length (action a) \<Longrightarrow>
             zero_from (width_act a (r div batch_size a)) (action a ! r)"
      and "r < length (rows (next_state a)) \<Longrightarrow>
             zero_from (width_in a (r div batch_size a)) (rows (next_state a) ! r)"
      and "r < length (state_idxs a) \<Longrightarrow>
             state_idxs a ! r = int (r div batch_size a)
             \<or> ((r < length (rows (state a)) \<longrightarrow> zero_from 0 (rows (state a) ! r))
                 \<and> (r < length (action a) \<longrightarrow> zero_from 0 (action a ! r)))"
      and "r < length (next_state_idxs a) \<Longrightarrow>
             next_state_idxs a ! r = int (r div batch_size a)
             \<or> (r < length (rows (next_state a)) \<longrightarrow> zero_from 0 (rows (next_state a) ! r))"
  using assms unfolding padded_def by blast+

lemma width_updates:
  "width_in (a\<lparr>state_idxs := x1\<rparr>) = width_in a"
  "width_in (a\<lparr>state := x2\<rparr>) = width_in a"
  "width_in (a\<lparr>action := x3\<rparr>) = width_in a"
  "width_in (a\<lparr>reward := x4\<rparr>) = width_in a"
  "width_in (a\<lparr>next_state_idxs := x1\<rparr>) = width_in a"
  "width_in (a\<lparr>next_state := x2\<rparr>) = width_in a"
  "width_in (a\<lparr>absorbing := x4\<rparr>) = width_in a"
  "width_act (a\<lparr>state_idxs := x1\<rparr>) = width_act a"
  "width_act (a\<lparr>state := x2\<rparr>) = width_act a"
  "width_act (a\<lparr>action := x3\<rparr>) = width_act a"
  "width_act (a\<lparr>reward := x4\<rparr>) = width_act a"
  "width_act (a\<lparr>next_state_idxs := x1\<rparr>) = width_act a"
  "width_act (a\<lparr>next_state := x2\<rparr>) = width_act a"
  "width_act (a\<lparr>absorbing := x4\<rparr>) = width_act a"
  by (simp_all add: width_in_def width_act_def fun_eq_iff)

lemma padded_state_idxs:
  assumes p: "padded a"
      and y: "set_slice (batch_size a * i) (batch_size a * i + batch_size a)
                (replicate (batch_size a) (int i)) (state_idxs a) = Some ys"
  shows "padded (a\<lparr>state_idxs := ys\<rparr>)"
    and "block_tagged ys (batch_size a) i"
proof -
  let ?B = "batch_size a"
  note Y = set_slice_SomeD[OF y, simplified]
  note P = paddedD[OF p]
  show bt: "block_tagged ys (batch_size a) i"
    unfolding block_tagged_def using Y(1) Y(3) by auto
  show "padded (a\<lparr>state_idxs := ys\<rparr>)"
  proof (rule paddedI)
    fix r assume "r < length (state_idxs (a\<lparr>state_idxs := ys\<rparr>))"
    then have r: "r < length (state_idxs a)" using Y(1) by simp
    show "state_idxs (a\<lparr>state_idxs := ys\<rparr>) ! r = int (r div batch_size (a\<lparr>state_idxs := ys\<rparr>))
       \<or> ((r < length (rows (state (a\<lparr>state_idxs := ys\<rparr>)))
              \<longrightarrow> zero_from 0 (rows (state (a\<lparr>state_idxs := ys\<rparr>)) ! r))
           \<and> (r < length (action (a\<lparr>state_idxs := ys\<rparr>))
              \<longrightarrow> zero_from 0 (action (a\<lparr>state_idxs := ys\<rparr>) ! r)))"
    proof (cases "?B * i \<le> r \<and> r < ?B * i + ?B")
      case True
      then have "r div ?B = i" by (simp add: in_block_div)
      moreover from bt True r Y(1) have "ys ! r = int i"
        by (simp add: block_tagged_def)
      ultimately show ?thesis by simp
    next
      case False
      with Y(3)[OF r] have "ys ! r = state_idxs a ! r" by simp
      with P(4)[OF r] show ?thesis by simp
    qed
  qed (use P(1,2,3,5) in \<open>simp_all add: width_updates\<close>)
qed


lemma padded_next_state_idxs:
  assumes p: "padded a"
      and y: "set_slice (batch_size a * i) (batch_size a * i + batch_size a)
                (replicate (batch_size a) (int i)) (next_state_idxs a) = Some ys"
  shows "padded (a\<lparr>next_state_idxs := ys\<rparr>)"
    and "block_tagged ys (batch_size a) i"
proof -
  let ?B = "batch_size a"
  note Y = set_slice_SomeD[OF y, simplified]
  note P = paddedD[OF p]
  show bt: "block_tagged ys (batch_size a) i"
    unfolding block_tagged_def using Y(1) Y(3) by auto
  show "padded (a\<lparr>next_state_idxs := ys\<rparr>)"
  proof (rule paddedI)
    fix r assume "r < length (next_state_idxs (a\<lparr>next_state_idxs := ys\<rparr>))"
    then have r: "r < length (next_state_idxs a)" using Y(1) by simp
    show "next_state_idxs (a\<lparr>next_state_idxs := ys\<rparr>) ! r
            = int (r div batch_size (a\<lparr>next_state_idxs := ys\<rparr>))
       \<or> (r < length (rows (next_state (a\<lparr>next_state_idxs := ys\<rparr>)))
              \<longrightarrow> zero_from 0 (rows (next_state (a\<lparr>next_state_idxs := ys\<rparr>)) ! r))"
    proof (cases "?B * i \<le> r \<and> r < ?B * i + ?B")
      case True
      then have "r div ?B = i" by (simp add: in_block_div)
      moreover from bt True r Y(1) have "ys ! r = int i"
        by (simp add: block_tagged_def)
      ultimately show ?thesis by simp
    next
      case False
      with Y(3)[OF r] have "ys ! r = next_state_idxs a ! r" by simp
      with P(5)[OF r] show ?thesis by simp
    qed
  qed (use P(1,2,3,4) in \<open>simp_all add: width_updates\<close>)
qed

lemma padded_state:
  assumes p: "padded a" and bt: "block_tagged (state_idxs a) (batch_size a) i"
      and i: "i < length (n_input_per_mdp a)" and st: "state a = Arr2 m"
      and b: "set_block (batch_size a * i) (batch_size a * i + batch_size a)
                (n_input_per_mdp a ! i) vs m = Some m'"
      and l: "length vs = batch_size a"
  shows "padded (a\<lparr>state := Arr2 m'\<rparr>)"
proof -
  let ?B = "batch_size a"
  note S = set_block_SomeD[OF b l]
  note P = paddedD[OF p]
  have rows: "zero_from (width_in a (r div ?B)) (m' ! r)
              \<and> (?B * i \<le> r \<and> r < ?B * i + ?B \<or> m' ! r = m ! r)" if r: "r < length m" for r
  proof (cases "?B * i \<le> r \<and> r < ?B * i + ?B")
    case True
    then have d: "r div ?B = i" by (simp add: in_block_div)
    from P(1)[of r] r st have "zero_from (n_input_per_mdp a ! i) (m ! r)"
      by (simp add: d width_in_def i)
    from zero_from_set_cols[OF this] S(4)[OF r] True
    have "zero_from (n_input_per_mdp a ! i) (set_cols (n_input_per_mdp a ! i) (vs ! (r - ?B * i)) (m ! r))"
      by simp
    with S(3)[OF r] True show ?thesis
      by (simp add: d width_in_def i)
  next
    case False
    with S(3)[OF r] have "m' ! r = m ! r" by simp
    with P(1)[of r] r st False show ?thesis by simp
  qed
  show ?thesis
  proof (rule paddedI)
    fix r assume "r < length (rows (state (a\<lparr>state := Arr2 m'\<rparr>)))"
    then have "r < length m" using S(1) by simp
    from rows[OF this] show "zero_from (width_in (a\<lparr>state := Arr2 m'\<rparr>)
              (r div batch_size (a\<lparr>state := Arr2 m'\<rparr>)))
            (rows (state (a\<lparr>state := Arr2 m'\<rparr>)) ! r)"
      by (simp add: width_updates)
  next
    fix r assume "r < length (state_idxs (a\<lparr>state := Arr2 m'\<rparr>))"
    then have r: "r < length (state_idxs a)" by simp
    show "state_idxs (a\<lparr>state := Arr2 m'\<rparr>) ! r = int (r div batch_size (a\<lparr>state := Arr2 m'\<rparr>))
       \<or> ((r < length (rows (state (a\<lparr>state := Arr2 m'\<rparr>)))
              \<longrightarrow> zero_from 0 (rows (state (a\<lparr>state := Arr2 m'\<rparr>)) ! r))
           \<and> (r < length (action (a\<lparr>state := Arr2 m'\<rparr>))
              \<longrightarrow> zero_from 0 (action (a\<lparr>state := Arr2 m'\<rparr>) ! r)))"
    proof (cases "?B * i \<le> r \<and> r < ?B * i + ?B")
      case True
      then have "r div ?B = i" by (simp add: in_block_div)
      moreover from bt True r have "state_idxs a ! r = int i"
        by (simp add: block_tagged_def)
      ultimately show ?thesis by simp
    next
      case False
      have "m' ! r = m ! r" if "r < length m"
        using rows[OF that] False by simp
      with P(4)[OF r] st S(1) show ?thesis by auto
    qed
  qed (use P(2,3,5) in \<open>simp_all add: width_updates\<close>)
qed

lemma padded_action:
  assumes p: "padded a" and bt: "block_tagged (state_idxs a) (batch_size a) i"
      and i: "i < length (n_actions_per_head a)"
      and b: "set_block (batch_size a * i) (batch_size a * i + batch_size a)
                (n_actions_per_head a ! i) vs (action a) = Some m'"
      and l: "length vs = batch_size a"
  shows "padded (a\<lparr>action := m'\<rparr>)"
proof -
  let ?B = "batch_size a"
  let ?m = "action a"
  note S = set_block_SomeD[OF b l]
  note P = paddedD[OF p]
  have rows: "zero_from (width_act a (r div ?B)) (m' ! r)
              \<and> (?B * i \<le> r \<and> r < ?B * i + ?B \<or> m' ! r = ?m ! r)" if r: "r < length ?m" for r
  proof (cases "?B * i \<le> r \<and> r < ?B * i + ?B")
    case True
    then have d: "r div ?B = i" by (simp add: in_block_div)
    from P(2)[of r] r have "zero_from (n_actions_per_head a ! i) (?m ! r)"
      by (simp add: d width_act_def i)
    from zero_from_set_cols[OF this] S(4)[OF r] True
    have "zero_from (n_actions_per_head a ! i)
            (set_cols (n_actions_per_head a ! i) (vs ! (r - ?B * i)) (?m ! r))"
      by simp
    with S(3)[OF r] True show ?thesis
      by (simp add: d width_act_def i)
  next
    case False
    with S(3)[OF r] have "m' ! r = ?m ! r" by simp
    with P(2)[of r] r False show ?thesis by simp
  qed
  show ?thesis
  proof (rule paddedI)
    fix r assume "r < length (action (a\<lparr>action := m'\<rparr>))"
    then have "r < length ?m" using S(1) by simp
    from rows[OF this] show "zero_from (width_act (a\<lparr>action := m'\<rparr>)
              (r div batch_size (a\<lparr>action := m'\<rparr>)))
            (action (a\<lparr>action := m'\<rparr>) ! r)"
      by (simp add: width_updates)
  next
    fix r assume "r < length (state_idxs (a\<lparr>action := m'\<rparr>))"
    then have r: "r < length (state_idxs a)" by simp
    show "state_idxs (a\<lparr>action := m'\<rparr>) ! r = int (r div batch_size (a\<lparr>action := m'\<rparr>))
       \<or> ((r < length (rows (state (a\<lparr>action := m'\<rparr>)))
              \<longrightarrow> zero_from 0 (rows (state (a\<lparr>action := m'\<rparr>)) ! r))
           \<and> (r < length (action (a\<lparr>action := m'\<rparr>))
              \<longrightarrow> zero_from 0 (action (a\<lparr>action := m'\<rparr>) ! r)))"
    proof (cases "?B * i \<le> r \<and> r < ?B * i + ?B")
      case True
      then have "r div ?B = i" by (simp add: in_block_div)
      moreover from bt True r have "state_idxs a ! r = int i"
        by (simp add: block_tagged_def)
      ultimately show ?thesis by simp
    next
      case False
      have "m' ! r = ?m ! r" if "r < length ?m"
        using rows[OF that] False by simp
      with P(4)[OF r] S(1) show ?thesis by auto
    qed
  qed (use P(1,3,5) in \<open>simp_all add: width_updates\<close>)
qed

lemma padded_next_state:
  assumes p: "padded a" and bt: "block_tagged (next_state_idxs a) (batch_size a) i"
      and i: "i < length (n_input_per_mdp a)" and st: "next_state a = Arr2 m"
      and b: "set_block (batch_size a * i) (batch_size a * i + batch_size a)
                (n_input_per_mdp a ! i) vs m = Some m'"
      and l: "length vs = batch_size a"
  shows "padded (a\<lparr>next_state := Arr2 m'\<rparr>)"
proof -
  let ?B = "batch_size a"
  note S = set_block_SomeD[OF b l]
  note P = paddedD[OF p]
  have rows: "zero_from (width_in a (r div ?B)) (m' ! r)
              \<and> (?B * i \<le> r \<and> r < ?B * i + ?B \<or> m' ! r = m ! r)" if r: "r < length m" for r
  proof (cases "?B * i \<le> r \<and> r < ?B * i + ?B")
    case True
    then have d: "r div ?B = i" by (simp add: in_block_div)
    from P(3)[of r] r st have "zero_from (n_input_per_mdp a ! i) (m ! r)"
      by (simp add: d width_in_def i)
    from zero_from_set_cols[OF this] S(4)[OF r] True
    have "zero_from (n_input_per_mdp a ! i) (set_cols (n_input_per_mdp a ! i) (vs ! (r - ?B * i)) (m ! r))"
      by simp
    with S(3)[OF r] True show ?thesis
      by (simp add: d width_in_def i)
  next
    case False
    with S(3)[OF r] have "m' ! r = m ! r" by simp
    with P(3)[of r] r st False show ?thesis by simp
  qed
  show ?thesis
  proof (rule paddedI)
    fix r assume "r < length (rows (next_state (a\<lparr>next_state := Arr2 m'\<rparr>)))"
    then have "r < length m" using S(1) by simp
    from rows[OF this] show "zero_from (width_in (a\<lparr>next_state := Arr2 m'\<rparr>)
              (r div batch_size (a\<lparr>next_state := Arr2 m'\<rparr>)))
            (rows (next_state (a\<lparr>next_state := Arr2 m'\<rparr>)) ! r)"
      by (simp add: width_updates)
  next
    fix r assume "r < length (next_state_idxs (a\<lparr>next_state := Arr2 m'\<rparr>))"
    then have r: "r < length (next_state_idxs a)" by simp
    show "next_state_idxs (a\<lparr>next_state := Arr2 m'\<rparr>) ! r
            = int (r div batch_size (a\<lparr>next_state := Arr2 m'\<rparr>))
       \<or> (r < length (rows (next_state (a\<lparr>next_state := Arr2 m'\<rparr>)))
              \<longrightarrow> zero_from 0 (rows (next_state (a\<lparr>next_state := Arr2 m'\<rparr>)) ! r))"
    proof (cases "?B * i \<le> r \<and> r < ?B * i + ?B")
      case True
      then have "r div ?B = i" by (simp add: in_block_div)
      moreover from bt True r have "next_state_idxs a ! r = int i"
        by (simp add: block_tagged_def)
      ultimately show ?thesis by simp
    next
      case False
      have "m' ! r = m ! r" if "r < length m"
        using rows[OF that] False by simp
      with P(5)[OF r] st S(1) show ?thesis by auto
    qed
  qed (use P(1,2,4) in \<open>simp_all add: width_updates\<close>)
qed

lemma padded_cong:
  assumes "batch_size a' = batch_size a" and "n_input_per_mdp a' = n_input_per_mdp a"
      and "n_actions_per_head a' = n_actions_per_head a"
      and "state_idxs a' = state_idxs a" and "state a' = state a" and "action a' = action a"
      and "next_state_idxs a' = next_state_idxs a" and "next_state a' = next_state a"
  shows "padded a' = padded a"
  using assms by (simp add: padded_def width_in_def width_act_def)

lemma fail_same_option:
  "fst (case x of None \<Rightarrow> (Some e, a) | Some y \<Rightarrow> (None, g y)) \<noteq> None \<Longrightarrow>
     snd (case x of None \<Rightarrow> (Some e, a) | Some y \<Rightarrow> (None, g y)) = a"
  by (cases x) auto

lemma fail_same_sum:
  "fst (case x of Inl e \<Rightarrow> (Some e, a) | Inr y \<Rightarrow> (None, g y)) \<noteq> None \<Longrightarrow>
     snd (case x of Inl e \<Rightarrow> (Some e, a) | Inr y \<Rightarrow> (None, g y)) = a"
  by (cases x) auto

lemma write_fail_same:
  "fst (write_state_idxs i a) \<noteq> None \<Longrightarrow> snd (write_state_idxs i a) = a"
  "fst (write_state i v a) \<noteq> None \<Longrightarrow> snd (write_state i v a) = a"
  "fst (write_action i v a) \<noteq> None \<Longrightarrow> snd (write_action i v a) = a"
  "fst (write_reward i w a) \<noteq> None \<Longrightarrow> snd (write_reward i w a) = a"
  "fst (write_next_state_idxs i a) \<noteq> None \<Longrightarrow> snd (write_next_state_idxs i a) = a"
  "fst (write_next_state i v a) \<noteq> None \<Longrightarrow> snd (write_next_state i v a) = a"
  "fst (write_absorbing i u a) \<noteq> None \<Longrightarrow> snd (write_absorbing i u a) = a"
proof -
  show "fst (write_state_idxs i a) \<noteq> None \<Longrightarrow> snd (write_state_idxs i a) = a"
    unfolding write_state_idxs_def Let_def by (rule fail_same_option)
  show "fst (write_reward i w a) \<noteq> None \<Longrightarrow> snd (write_reward i w a) = a"
    unfolding write_reward_def Let_def by (rule fail_same_option)
  show "fst (write_next_state_idxs i a) \<noteq> None \<Longrightarrow> snd (write_next_state_idxs i a) = a"
    unfolding write_next_state_idxs_def Let_def by (rule fail_same_option)
  show "fst (write_absorbing i u a) \<noteq> None \<Longrightarrow> snd (write_absorbing i u a) = a"
    unfolding write_absorbing_def Let_def by (rule fail_same_option)
  show "fst (write_state i v a) \<noteq> None \<Longrightarrow> snd (write_state i v a) = a"
    unfolding write_state_def Let_def
    by (cases "length (n_input_per_mdp a) \<le> i") (simp_all add: fail_same_sum)
  show "fst (write_next_state i v a) \<noteq> None \<Longrightarrow> snd (write_next_state i v a) = a"
    unfolding write_next_state_def Let_def
    by (cases "length (n_input_per_mdp a) \<le> i") (simp_all add: fail_same_sum)
  show "fst (write_action i v a) \<noteq> None \<Longrightarrow> snd (write_action i v a) = a"
    unfolding write_action_def Let_def
    by (cases "length (n_actions_per_head a) \<le> i") (simp_all add: fail_same_option)
qed

lemma write_batch_size:
  "batch_size (snd (write_state_idxs i a)) = batch_size a"
  "batch_size (snd (write_state i v a)) = batch_size a"
  "batch_size (snd (write_action i v a)) = batch_size a"
  "batch_size (snd (write_reward i w a)) = batch_size a"
  "batch_size (snd (write_next_state_idxs i a)) = batch_size a"
  "batch_size (snd (write_next_state i v a)) = batch_size a"
  "batch_size (snd (write_absorbing i u a)) = batch_size a"
proof -
  show "batch_size (snd (write_state_idxs i a)) = batch_size a"
    using write_fail_same(1)[of i a] write_state_idxs_None[of i a "snd (write_state_idxs i a)"]
    by (cases "fst (write_state_idxs i a) = None") (auto simp: prod_eq_iff)
  show "batch_size (snd (write_state i v a)) = batch_size a"
    using write_fail_same(2)[of i v a] write_state_None[of i v a "snd (write_state i v a)"]
    by (cases "fst (write_state i v a) = None") (auto simp: prod_eq_iff)
  show "batch_size (snd (write_action i v a)) = batch_size a"
    using write_fail_same(3)[of i v a] write_action_None[of i v a "snd (write_action i v a)"]
    by (cases "fst (write_action i v a) = None") (auto simp: prod_eq_iff)
  show "batch_size (snd (write_reward i w a)) = batch_size a"
    using write_fail_same(4)[of i w a] write_reward_None[of i w a "snd (write_reward i w a)"]
    by (cases "fst (write_reward i w a) = None") (auto simp: prod_eq_iff)
  show "batch_size (snd (write_next_state_idxs i a)) = batch_size a"
    using write_fail_same(5)[of i a]
      write_next_state_idxs_None[of i a "snd (write_next_state_idxs i a)"]
    by (cases "fst (write_next_state_idxs i a) = None") (auto simp: prod_eq_iff)
  show "batch_size (snd (write_next_state i v a)) = batch_size a"
    using write_fail_same(6)[of i v a]
      write_next_state_None[of i v a "snd (write_next_state i v a)"]
    by (cases "fst (write_next_state i v a) = None") (auto simp: prod_eq_iff)
  show "batch_size (snd (write_absorbing i u a)) = batch_size a"
    using write_fail_same(7)[of i u a]
      write_absorbing_None[of i u a "snd (write_absorbing i u a)"]
    by (cases "fst (write_absorbing i u a) = None") (auto simp: prod_eq_iff)
qed

lemma step_None: "fst x = None \<Longrightarrow> x = (None, snd x)"
  by (simp add: prod_eq_iff)

lemma write_state_idxs_keeps_padded:
  assumes "padded a"
  shows "padded (snd (write_state_idxs i a))
    \<and> (fst (write_state_idxs i a) = None \<longrightarrow>
         block_tagged (state_idxs (snd (write_state_idxs i a)))
           (batch_size (snd (write_state_idxs i a))) i)"
proof (cases "fst (write_state_idxs i a) = None")
  case True
  from write_state_idxs_None[OF step_None[OF True]] obtain ys where
    "set_slice (batch_size a * i) (batch_size a * i + batch_size a)
       (replicate (batch_size a) (int i)) (state_idxs a) = Some ys"
    and "snd (write_state_idxs i a) = a\<lparr>state_idxs := ys\<rparr>"
    by auto
  with padded_state_idxs[OF assms this(1)] True show ?thesis by simp
next
  case False
  with assms write_fail_same(1)[OF False] show ?thesis by auto
qed

lemma write_state_keeps_padded:
  assumes "padded a" and "block_tagged (state_idxs a) (batch_size a) i"
      and "length v = batch_size a"
  shows "padded (snd (write_state i v a))
    \<and> block_tagged (state_idxs (snd (write_state i v a))) (batch_size (snd (write_state i v a))) i"
proof (cases "fst (write_state i v a) = None")
  case True
  from write_state_None[OF step_None[OF True]] obtain m m' where
    "i < length (n_input_per_mdp a)" "state a = Arr2 m"
    "set_block (batch_size a * i) (batch_size a * i + batch_size a)
       (n_input_per_mdp a ! i) v m = Some m'"
    and a': "snd (write_state i v a) = a\<lparr>state := Arr2 m'\<rparr>"
    by auto
  from padded_state[OF assms(1,2) this(1,2,3) assms(3)] assms(2) show ?thesis
    unfolding a' by simp
next
  case False
  with assms write_fail_same(2)[OF False] show ?thesis by simp
qed

lemma write_action_keeps_padded:
  assumes "padded a" and "block_tagged (state_idxs a) (batch_size a) i"
      and "length v = batch_size a"
  shows "padded (snd (write_action i v a))
    \<and> block_tagged (state_idxs (snd (write_action i v a))) (batch_size (snd (write_action i v a))) i"
proof (cases "fst (write_action i v a) = None")
  case True
  from write_action_None[OF step_None[OF True]] obtain m' where
    "i < length (n_actions_per_head a)"
    "set_block (batch_size a * i) (batch_size a * i + batch_size a)
       (n_actions_per_head a ! i) v (action a) = Some m'"
    and a': "snd (write_action i v a) = a\<lparr>action := m'\<rparr>"
    by auto
  from padded_action[OF assms(1,2) this(1,2) assms(3)] assms(2) show ?thesis
    unfolding a' by simp
next
  case False
  with assms write_fail_same(3)[OF False] show ?thesis by simp
qed

lemma write_reward_keeps_padded:
  assumes "padded a" and "block_tagged (state_idxs a) (batch_size a) i"
  shows "padded (snd (write_reward i w a))
    \<and> block_tagged (state_idxs (snd (write_reward i w a))) (batch_size (snd (write_reward i w a))) i"
proof (cases "fst (write_reward i w a) = None")
  case True
  from write_reward_None[OF step_None[OF True]] obtain ys where
    a': "snd (write_reward i w a) = a\<lparr>reward := ys\<rparr>"
    by auto
  have "padded (a\<lparr>reward := ys\<rparr>) = padded a"
    by (rule padded_cong) simp_all
  with assms show ?thesis unfolding a' by simp
next
  case False
  with assms write_fail_same(4)[OF False] show ?thesis by simp
qed

lemma write_next_state_idxs_keeps_padded:
  assumes "padded a" and "block_tagged (state_idxs a) (batch_size a) i"
  shows "padded (snd (write_next_state_idxs i a))
    \<and> (fst (write_next_state_idxs i a) = None \<longrightarrow>
         block_tagged (next_state_idxs (snd (write_next_state_idxs i a)))
           (batch_size (snd (write_next_state_idxs i a))) i)"
proof (cases "fst (write_next_state_idxs i a) = None")
  case True
  from write_next_state_idxs_None[OF step_None[OF True]] obtain ys where
    "set_slice (batch_size a * i) (batch_size a * i + batch_size a)
       (replicate (batch_size a) (int i)) (next_state_idxs a) = Some ys"
    and "snd (write_next_state_idxs i a) = a\<lparr>next_state_idxs := ys\<rparr>"
    by auto
  with padded_next_state_idxs[OF assms(1) this(1)] True show ?thesis by simp
next
  case False
  with assms write_fail_same(5)[OF False] show ?thesis by auto
qed

lemma write_next_state_keeps_padded:
  assumes "padded a" and "block_tagged (next_state_idxs a) (batch_size a) i"
      and "length v = batch_size a"
  shows "padded (snd (write_next_state i v a))"
proof (cases "fst (write_next_state i v a) = None")
  case True
  from write_next_state_None[OF step_None[OF True]] obtain m m' where
    "i < length (n_input_per_mdp a)" "next_state a = Arr2 m"
    "set_block (batch_size a * i) (batch_size a * i + batch_size a)
       (n_input_per_mdp a ! i) v m = Some m'"
    and a': "snd (write_next_state i v a) = a\<lparr>next_state := Arr2 m'\<rparr>"
    by auto
  from padded_next_state[OF assms(1,2) this(1,2,3) assms(3)] show ?thesis
    unfolding a' by simp
next
  case False
  with assms write_fail_same(6)[OF False] show ?thesis by simp
qed

lemma write_absorbing_keeps_padded:
  assumes "padded a"
  shows "padded (snd (write_absorbing i u a))"
proof (cases "fst (write_absorbing i u a) = None")
  case True
  from write_absorbing_None[OF step_None[OF True]] obtain ys where
    a': "snd (write_absorbing i u a) = a\<lparr>absorbing := ys\<rparr>"
    by auto
  have "padded (a\<lparr>absorbing := ys\<rparr>) = padded a"
    by (rule padded_cong) simp_all
  with assms show ?thesis unfolding a' by simp
next
  case False
  with assms write_fail_same(7)[OF False] show ?thesis by simp
qed

lemma run_steps_snd:
  "snd (run_steps (f # fs) s)
     = (if fst (f s) = None then snd (run_steps fs (snd (f s))) else snd (f s))"
  by (cases "f s") (auto split: option.splits)

lemma run_steps_fst:
  "fst (run_steps (f # fs) s)
     = (if fst (f s) = None then fst (run_steps fs (snd (f s))) else fst (f s))"
  by (cases "f s") (auto split: option.splits)

lemma writes_padded:
  assumes p: "padded a" and l: "length smp = batch_size a"
  shows "padded (snd (run_steps [write_state_idxs i,
                        write_state i (map tr_state smp),
                        write_action i (map tr_action smp),
                        write_reward i (map tr_reward smp),
                        write_next_state_idxs i,
                        write_next_state i (map tr_next_state smp),
                        write_absorbing i (map tr_absorbing smp)] a))"
proof -
  define s1 where "s1 = snd (write_state_idxs i a)"
  define s2 where "s2 = snd (write_state i (map tr_state smp) s1)"
  define s3 where "s3 = snd (write_action i (map tr_action smp) s2)"
  define s4 where "s4 = snd (write_reward i (map tr_reward smp) s3)"
  define s5 where "s5 = snd (write_next_state_idxs i s4)"
  define s6 where "s6 = snd (write_next_state i (map tr_next_state smp) s5)"
  define s7 where "s7 = snd (write_absorbing i (map tr_absorbing smp) s6)"
  have b: "batch_size s1 = batch_size a" "batch_size s2 = batch_size a"
    "batch_size s3 = batch_size a" "batch_size s4 = batch_size a" "batch_size s5 = batch_size a"
    unfolding s1_def s2_def s3_def s4_def s5_def by (simp_all add: write_batch_size)
  have p1: "padded s1" unfolding s1_def using write_state_idxs_keeps_padded[OF p] by simp
  have rest: "padded s2 \<and> padded s3 \<and> padded s4 \<and> padded s5
      \<and> (fst (write_next_state_idxs i s4) = None \<longrightarrow> padded s6 \<and> padded s7)"
    if ok: "fst (write_state_idxs i a) = None"
  proof -
    from write_state_idxs_keeps_padded[OF p] ok have t1: "block_tagged (state_idxs s1) (batch_size s1) i"
      unfolding s1_def by simp
    from write_state_keeps_padded[OF p1 t1, of "map tr_state smp"] l b
    have q2: "padded s2" "block_tagged (state_idxs s2) (batch_size s2) i"
      unfolding s2_def by simp_all
    from write_action_keeps_padded[OF q2, of "map tr_action smp"] l b
    have q3: "padded s3" "block_tagged (state_idxs s3) (batch_size s3) i"
      unfolding s3_def by simp_all
    from write_reward_keeps_padded[OF q3, of "map tr_reward smp"]
    have q4: "padded s4" "block_tagged (state_idxs s4) (batch_size s4) i"
      unfolding s4_def by simp_all
    from write_next_state_idxs_keeps_padded[OF q4] have q5: "padded s5"
      and t5: "fst (write_next_state_idxs i s4) = None \<longrightarrow>
                 block_tagged (next_state_idxs s5) (batch_size s5) i"
      unfolding s5_def by simp_all
    have "padded s6 \<and> padded s7" if "fst (write_next_state_idxs i s4) = None"
    proof -
      from t5 that have "block_tagged (next_state_idxs s5) (batch_size s5) i" by simp
      from write_next_state_keeps_padded[OF q5 this, of "map tr_next_state smp"] l b have "padded s6"
        unfolding s6_def by simp
      with write_absorbing_keeps_padded[of s6] show ?thesis unfolding s7_def by simp
    qed
    with q2 q3 q4 q5 show ?thesis by simp
  qed
  have E: "snd (run_steps [write_state_idxs i,
                        write_state i (map tr_state smp),
                        write_action i (map tr_action smp),
                        write_reward i (map tr_reward smp),
                        write_next_state_idxs i,
                        write_next_state i (map tr_next_state smp),
                        write_absorbing i (map tr_absorbing smp)] a)
     = (if fst (write_state_idxs i a) = None then
          (if fst (write_state i (map tr_state smp) s1) = None then
             (if fst (write_action i (map tr_action smp) s2) = None then
                (if fst (write_reward i (map tr_reward smp) s3) = None then
                   (if fst (write_next_state_idxs i s4) = None then
                      (if fst (write_next_state i (map tr_next_state smp) s5) = None then s7
                       else s6)
                    else s5)
                 else s4)
              else s3)
           else s2)
        else s1)"
    unfolding s1_def s2_def s3_def s4_def s5_def s6_def s7_def
    by (simp only: run_steps_snd run_steps.simps(1) snd_conv if_cancel)
  show ?thesis
    unfolding E using p1 rest by auto
qed

lemma gather_task_padded:
  assumes "padded a"
  shows "padded (snd (gather_task rnd i a))"
proof -
  let ?r = "rm_get (batch_size a) (rnd i) (replay_memory a ! i)"
  let ?a1 = "a\<lparr>replay_memory := (replay_memory a)[i := snd ?r]\<rparr>"
  have "padded ?a1 = padded a" by (rule padded_cong) simp_all
  with assms have p1: "padded ?a1" by simp
  show ?thesis
  proof (cases "fst ?r")
    case (Inl e)
    with p1 show ?thesis by (simp add: gather_task_def Let_def)
  next
    case (Inr smp)
    from rm_get_Inr(3)[OF Inr] have "length smp = batch_size ?a1" by simp
    from writes_padded[OF p1 this] Inr show ?thesis
      by (simp add: gather_task_def Let_def)
  qed
qed

lemma run_steps_inv:
  assumes "\<And>f s. f \<in> set fs \<Longrightarrow> Q s \<Longrightarrow> Q (snd (f s))" and "Q s"
  shows "Q (snd (run_steps fs s))"
  using assms
proof (induction fs arbitrary: s)
  case Nil
  then show ?case by simp
next
  case (Cons f fs)
  show ?case
    unfolding run_steps_snd using Cons by auto
qed

lemma assemble_padded: "padded a \<Longrightarrow> padded (snd (assemble rnd a))"
  unfolding assemble_def
  by (rule run_steps_inv[where Q = padded]) (auto simp: gather_task_padded)

section \<open>Properties of fit: frame conditions and errors\<close>

lemma same_scratch_refl: "same_scratch a a"
  by (simp add: same_scratch_def)

lemma same_scratch_trans: "same_scratch a b \<Longrightarrow> same_scratch b c \<Longrightarrow> same_scratch a c"
  by (simp add: same_scratch_def)

lemma same_scratch_padded: "same_scratch a b \<Longrightarrow> padded b = padded a"
  by (rule padded_cong) (simp_all add: same_scratch_def)

lemma update_target_frame:
  "same_scratch a (snd (update_target a))"
  "n_updates (snd (update_target a)) = n_updates a"
  "critic_approximator (snd (update_target a)) = critic_approximator a"
  "actor_approximator (snd (update_target a)) = actor_approximator a"
  "fst (update_target a) = None \<or> fst (update_target a) = Some ValueError"
proof -
  let ?c = "soft_update (tau a) (weights (critic_approximator a))
             (weights (target_critic_approximator a))"
  have "same_scratch a (snd (update_target a))
    \<and> n_updates (snd (update_target a)) = n_updates a
    \<and> critic_approximator (snd (update_target a)) = critic_approximator a
    \<and> actor_approximator (snd (update_target a)) = actor_approximator a
    \<and> (fst (update_target a) = None \<or> fst (update_target a) = Some ValueError)"
  proof (cases ?c)
    case None
    then show ?thesis by (simp add: update_target_def same_scratch_def)
  next
    case (Some cw)
    let ?a1 = "a\<lparr>target_critic_approximator :=
                  (target_critic_approximator a)\<lparr>weights := cw\<rparr>\<rparr>"
    show ?thesis
    proof (cases "soft_update (tau ?a1) (weights (actor_approximator ?a1))
                    (weights (target_actor_approximator ?a1))")
      case None
      with Some show ?thesis by (simp add: update_target_def same_scratch_def Let_def)
    next
      case (Some aw)
      with \<open>?c = Some cw\<close> show ?thesis
        by (simp add: update_target_def same_scratch_def Let_def)
    qed
  qed
  then show "same_scratch a (snd (update_target a))"
    "n_updates (snd (update_target a)) = n_updates a"
    "critic_approximator (snd (update_target a)) = critic_approximator a"
    "actor_approximator (snd (update_target a)) = actor_approximator a"
    "fst (update_target a) = None \<or> fst (update_target a) = Some ValueError"
    by blast+
qed

lemma next_q_loop_error:
  "next_q_loop is a q out = Inl e \<Longrightarrow> e = IndexError \<or> e = ValueError"
proof (induction "is" arbitrary: out)
  case Nil
  then show ?case by simp
next
  case (Cons i "is")
  let ?B = "batch_size a"
  let ?s = "?B * i"
  show ?case
  proof (cases "length (gamma a) \<le> i")
    case True
    with Cons.prems show ?thesis by (simp add: Let_def)
  next
    case g: False
    show ?thesis
    proof (cases "set_slice ?s (?s + ?B) (map (\<lambda>x. x * gamma a ! i) (get_slice ?s (?s + ?B) q)) out")
      case None
      with g Cons.prems show ?thesis by (simp add: Let_def)
    next
      case (Some out1)
      show ?thesis
      proof (cases "list_ex (\<lambda>x. x \<noteq> 0) (get_slice ?s (?s + ?B) (absorbing a))")
        case False
        with g Some Cons.prems have "next_q_loop is a q out1 = Inl e" by (simp add: Let_def)
        then show ?thesis by (rule Cons.IH)
      next
        case True
        show ?thesis
        proof (cases "np_mul (get_slice ?s (?s + ?B) out1)
                        (map (\<lambda>x. 1 - x) (get_slice ?s (?s + ?B) (absorbing a)))")
          case None
          with g Some True Cons.prems show ?thesis by (simp add: Let_def)
        next
          case v: (Some v)
          show ?thesis
          proof (cases "set_slice ?s (?s + ?B) v out1")
            case None
            with g Some True v Cons.prems show ?thesis by (simp add: Let_def)
          next
            case o2: (Some out2)
            with g Some True v Cons.prems have "next_q_loop is a q out2 = Inl e"
              by (simp add: Let_def)
            then show ?thesis by (rule Cons.IH)
          qed
        qed
      qed
    qed
  qed
qed

lemma critic_target_error:
  "critic_target env a = Inl e \<Longrightarrow> e = IndexError \<or> e = ValueError"
proof (cases "next_q env a")
  case (Inl e')
  assume "critic_target env a = Inl e"
  with Inl have "e' = e" by (simp add: critic_target_def)
  with Inl next_q_loop_error[of "[0..<n_games a]" a "target_q env a" _ e] show ?thesis
    by (simp add: next_q_def)
next
  case (Inr q)
  assume "critic_target env a = Inl e"
  with Inr show ?thesis
    by (cases "np_add (reward a) q") (simp_all add: critic_target_def)
qed


lemma write_same_config:
  "same_config a (snd (write_state_idxs i a))"
  "same_config a (snd (write_state i v a))"
  "same_config a (snd (write_action i v a))"
  "same_config a (snd (write_reward i w a))"
  "same_config a (snd (write_next_state_idxs i a))"
  "same_config a (snd (write_next_state i v a))"
  "same_config a (snd (write_absorbing i u a))"
proof -
  show "same_config a (snd (write_state_idxs i a))"
    using write_fail_same(1)[of i a] write_state_idxs_None[of i a "snd (write_state_idxs i a)"]
    by (cases "fst (write_state_idxs i a) = None") (auto simp: prod_eq_iff same_config_def)
  show "same_config a (snd (write_state i v a))"
    using write_fail_same(2)[of i v a] write_state_None[of i v a "snd (write_state i v a)"]
    by (cases "fst (write_state i v a) = None") (auto simp: prod_eq_iff same_config_def)
  show "same_config a (snd (write_action i v a))"
    using write_fail_same(3)[of i v a] write_action_None[of i v a "snd (write_action i v a)"]
    by (cases "fst (write_action i v a) = None") (auto simp: prod_eq_iff same_config_def)
  show "same_config a (snd (write_reward i w a))"
    using write_fail_same(4)[of i w a] write_reward_None[of i w a "snd (write_reward i w a)"]
    by (cases "fst (write_reward i w a) = None") (auto simp: prod_eq_iff same_config_def)
  show "same_config a (snd (write_next_state_idxs i a))"
    using write_fail_same(5)[of i a]
      write_next_state_idxs_None[of i a "snd (write_next_state_idxs i a)"]
    by (cases "fst (write_next_state_idxs i a) = None") (auto simp: prod_eq_iff same_config_def)
  show "same_config a (snd (write_next_state i v a))"
    using write_fail_same(6)[of i v a]
      write_next_state_None[of i v a "snd (write_next_state i v a)"]
    by (cases "fst (write_next_state i v a) = None") (auto simp: prod_eq_iff same_config_def)
  show "same_config a (snd (write_absorbing i u a))"
    using write_fail_same(7)[of i u a]
      write_absorbing_None[of i u a "snd (write_absorbing i u a)"]
    by (cases "fst (write_absorbing i u a) = None") (auto simp: prod_eq_iff same_config_def)
qed

lemma gather_task_same_config: "same_config a (snd (gather_task rnd i a))"
proof -
  let ?r = "rm_get (batch_size a) (rnd i) (replay_memory a ! i)"
  let ?a1 = "a\<lparr>replay_memory := (replay_memory a)[i := snd ?r]\<rparr>"
  have "?a1 = a" if "\<not> i < length (replay_memory a)"
  proof -
    from that have "(replay_memory a)[i := snd ?r] = replay_memory a"
      by (intro list_update_beyond) simp
    then show ?thesis by simp
  qed
  moreover have "same_config a ?a1" if "i < length (replay_memory a)"
    unfolding same_config_def rm_get_snd
    using that by (auto simp: nth_list_update)
  ultimately have c1: "same_config a ?a1"
    using same_config_refl[of a] by (cases "i < length (replay_memory a)") simp_all
  show ?thesis
  proof (cases "fst ?r")
    case (Inl e)
    with c1 show ?thesis by (simp add: gather_task_def Let_def)
  next
    case (Inr smp)
    have "same_config a (snd (run_steps [write_state_idxs i,
                        write_state i (map tr_state smp),
                        write_action i (map tr_action smp),
                        write_reward i (map tr_reward smp),
                        write_next_state_idxs i,
                        write_next_state i (map tr_next_state smp),
                        write_absorbing i (map tr_absorbing smp)] ?a1))"
    proof (rule run_steps_inv[where Q = "same_config a"])
      show "same_config a ?a1" by (rule c1)
    next
      fix f s assume f: "f \<in> set [write_state_idxs i,
                        write_state i (map tr_state smp),
                        write_action i (map tr_action smp),
                        write_reward i (map tr_reward smp),
                        write_next_state_idxs i,
                        write_next_state i (map tr_next_state smp),
                        write_absorbing i (map tr_absorbing smp)]"
        and s: "same_config a s"
      from f have "same_config s (snd (f s))"
        by (auto simp: write_same_config)
      with s show "same_config a (snd (f s))" by (rule same_config_trans)
    qed
    with Inr show ?thesis by (simp add: gather_task_def Let_def)
  qed
qed

lemma assemble_same_config: "same_config a (snd (assemble rnd a))"
  unfolding assemble_def
proof (rule run_steps_inv[where Q = "same_config a"])
  show "same_config a a" by (rule same_config_refl)
next
  fix f s assume "f \<in> set (map (gather_task rnd) [0..<length (replay_memory a)])"
    and s: "same_config a s"
  then have "same_config s (snd (f s))"
    by (auto simp: gather_task_same_config)
  with s show "same_config a (snd (f s))" by (rule same_config_trans)
qed

lemma write_errors:
  "fst (write_state_idxs i a) \<noteq> Some InsufficientDataError"
  "fst (write_state i v a) \<noteq> Some InsufficientDataError"
  "fst (write_action i v a) \<noteq> Some InsufficientDataError"
  "fst (write_reward i w a) \<noteq> Some InsufficientDataError"
  "fst (write_next_state_idxs i a) \<noteq> Some InsufficientDataError"
  "fst (write_next_state i v a) \<noteq> Some InsufficientDataError"
  "fst (write_absorbing i u a) \<noteq> Some InsufficientDataError"
proof -
  have o: "fst (case x of None \<Rightarrow> (Some ValueError, b) | Some y \<Rightarrow> (None, g y))
             \<noteq> Some InsufficientDataError" for x :: "'z option" and b :: agent and g
    by (cases x) auto
  have n: "fst (case set_block_nd s t k vs arr of Inl e \<Rightarrow> (Some e, b) | Inr y \<Rightarrow> (None, g y))
             \<noteq> Some InsufficientDataError" for s t k vs arr and b :: agent and g
    by (cases arr; cases "set_block s t k vs (rows arr)") (auto simp: set_block_nd_def)
  show "fst (write_state_idxs i a) \<noteq> Some InsufficientDataError"
    unfolding write_state_idxs_def Let_def by (rule o)
  show "fst (write_reward i w a) \<noteq> Some InsufficientDataError"
    unfolding write_reward_def Let_def by (rule o)
  show "fst (write_next_state_idxs i a) \<noteq> Some InsufficientDataError"
    unfolding write_next_state_idxs_def Let_def by (rule o)
  show "fst (write_absorbing i u a) \<noteq> Some InsufficientDataError"
    unfolding write_absorbing_def Let_def by (rule o)
  show "fst (write_action i v a) \<noteq> Some InsufficientDataError"
    unfolding write_action_def Let_def
    by (cases "length (n_actions_per_head a) \<le> i") (simp_all add: o)
  show "fst (write_state i v a) \<noteq> Some InsufficientDataError"
    unfolding write_state_def Let_def
    by (cases "length (n_input_per_mdp a) \<le> i") (simp_all add: n)
  show "fst (write_next_state i v a) \<noteq> Some InsufficientDataError"
    unfolding write_next_state_def Let_def
    by (cases "length (n_input_per_mdp a) \<le> i") (simp_all add: n)
qed

lemma run_steps_errors:
  assumes "\<And>f s. f \<in> set fs \<Longrightarrow> fst (f s) \<noteq> Some e"
  shows "fst (run_steps fs s) \<noteq> Some e"
  using assms
proof (induction fs arbitrary: s)
  case Nil
  then show ?case by simp
next
  case (Cons f fs)
  show ?case
    unfolding run_steps_fst using Cons by auto
qed

lemma gather_task_error:
  assumes "rm_initialized (replay_memory a ! i)"
  shows "fst (gather_task rnd i a) \<noteq> Some InsufficientDataError"
proof -
  let ?r = "rm_get (batch_size a) (rnd i) (replay_memory a ! i)"
  show ?thesis
  proof (cases "fst ?r")
    case (Inl e)
    with assms have "e = ValueError"
      by (auto simp: rm_get_def Let_def split: if_splits)
    with Inl show ?thesis by (simp add: gather_task_def Let_def)
  next
    case (Inr smp)
    have "fst (run_steps [write_state_idxs i,
                        write_state i (map tr_state smp),
                        write_action i (map tr_action smp),
                        write_reward i (map tr_reward smp),
                        write_next_state_idxs i,
                        write_next_state i (map tr_next_state smp),
                        write_absorbing i (map tr_absorbing smp)] s)
            \<noteq> Some InsufficientDataError" for s
      by (rule run_steps_errors) (auto simp: write_errors)
    with Inr show ?thesis by (simp add: gather_task_def Let_def)
  qed
qed

lemma run_gather_error:
  assumes "\<forall>i\<in>set is. i < length (replay_memory a) \<and> rm_initialized (replay_memory a ! i)"
  shows "fst (run_steps (map (gather_task rnd) is) a) \<noteq> Some InsufficientDataError"
  using assms
proof (induction "is" arbitrary: a)
  case Nil
  then show ?case by simp
next
  case (Cons i "is")
  let ?a1 = "snd (gather_task rnd i a)"
  note c = gather_task_same_config[of a rnd i]
  have "\<forall>k\<in>set is. k < length (replay_memory ?a1) \<and> rm_initialized (replay_memory ?a1 ! k)"
  proof
    fix k assume "k \<in> set is"
    with Cons.prems have k: "k < length (replay_memory a)"
      and ki: "rm_initialized (replay_memory a ! k)" by auto
    from c have "length (replay_memory ?a1) = length (replay_memory a)"
      by (simp add: same_config_def)
    with k ki same_config_initialized[OF c k]
    show "k < length (replay_memory ?a1) \<and> rm_initialized (replay_memory ?a1 ! k)"
      by simp
  qed
  from Cons.IH[OF this] gather_task_error[of a i rnd] Cons.prems
  show ?case
    by (simp add: run_steps_fst del: run_steps.simps)
qed

lemma assemble_error:
  assumes "fit_condition (replay_memory a)"
  shows "fst (assemble rnd a) \<noteq> Some InsufficientDataError"
  unfolding assemble_def
proof (rule run_gather_error)
  from assms show "\<forall>i\<in>set [0..<length (replay_memory a)].
      i < length (replay_memory a) \<and> rm_initialized (replay_memory a ! i)"
    by (simp add: fit_condition_def list_all_length)
qed

section \<open>Properties of fit: the update cycle\<close>

lemma update_cycle_facts:
  "same_scratch (snd (assemble rnd a)) (snd (update_cycle env rnd a))"
  "n_updates (snd (update_cycle env rnd a)) = n_updates a
     \<or> n_updates (snd (update_cycle env rnd a)) = n_updates a + 1"
  "fst (update_cycle env rnd a) = None \<Longrightarrow>
     fst (assemble rnd a) = None \<and> n_updates (snd (update_cycle env rnd a)) = n_updates a + 1"
  "fit_condition (replay_memory a) \<Longrightarrow>
     fst (update_cycle env rnd a) \<noteq> Some InsufficientDataError"
proof -
  obtain e1 a1 where asm: "assemble rnd a = (e1, a1)" by (cases "assemble rnd a")
  from assemble_same_config[of a rnd] asm have n1: "n_updates a1 = n_updates a"
    by (simp add: same_config_def)
  have "same_scratch a1 (snd (update_cycle env rnd a))
    \<and> (n_updates (snd (update_cycle env rnd a)) = n_updates a
        \<or> n_updates (snd (update_cycle env rnd a)) = n_updates a + 1)
    \<and> (fst (update_cycle env rnd a) = None \<longrightarrow>
          e1 = None \<and> n_updates (snd (update_cycle env rnd a)) = n_updates a + 1)
    \<and> (fit_condition (replay_memory a) \<longrightarrow>
          fst (update_cycle env rnd a) \<noteq> Some InsufficientDataError)"
  proof (cases e1)
    case (Some e)
    with asm assemble_error[of a rnd] n1 show ?thesis
      by (auto simp: update_cycle_def same_scratch_refl)
  next
    case None
    note e1 = None
    show ?thesis
    proof (cases "critic_target env a1")
      case (Inl e)
      with critic_target_error[OF Inl] asm e1 n1 show ?thesis
        by (auto simp: update_cycle_def same_scratch_refl)
    next
      case (Inr q)
      note ct = Inr
      show ?thesis
      proof (cases "critic_fit env (critic_approximator a1) (state a1) (action a1) q
                      (state_idxs a1)")
        case None
        with ct asm e1 n1 show ?thesis
          by (auto simp: update_cycle_def same_scratch_refl)
      next
        case (Some cw)
        note cf = Some
        let ?a2 = "a1\<lparr>critic_approximator := (critic_approximator a1)\<lparr>weights := cw\<rparr>\<rparr>"
        show ?thesis
        proof (cases "actor_fit env (actor_approximator ?a2) (critic_approximator ?a2)
                        (state ?a2) (state_idxs ?a2)")
          case None
          with cf ct asm e1 n1 show ?thesis
            by (auto simp: update_cycle_def same_scratch_def Let_def)
        next
          case (Some aw)
          let ?a3 = "?a2\<lparr>actor_approximator := (actor_approximator ?a2)\<lparr>weights := aw\<rparr>,
                        n_updates := n_updates ?a2 + 1\<rparr>"
          from Some cf ct asm e1 have u: "update_cycle env rnd a = update_target ?a3"
            by (simp add: update_cycle_def Let_def)
          note T = update_target_frame[of ?a3]
          have "same_scratch a1 ?a3" by (simp add: same_scratch_def)
          from same_scratch_trans[OF this T(1)] T(2) T(5) n1 e1 show ?thesis
            unfolding u by auto
        qed
      qed
    qed
  qed
  with asm show "same_scratch (snd (assemble rnd a)) (snd (update_cycle env rnd a))"
    "n_updates (snd (update_cycle env rnd a)) = n_updates a
       \<or> n_updates (snd (update_cycle env rnd a)) = n_updates a + 1"
    "fst (update_cycle env rnd a) = None \<Longrightarrow>
       fst (assemble rnd a) = None \<and> n_updates (snd (update_cycle env rnd a)) = n_updates a + 1"
    "fit_condition (replay_memory a) \<Longrightarrow>
       fst (update_cycle env rnd a) \<noteq> Some InsufficientDataError"
    by simp_all
qed

lemma fit_cases:
  "fst (route_dataset dataset (replay_memory a)) \<noteq> None \<Longrightarrow>
     fit env rnd a dataset
       = (fst (route_dataset dataset (replay_memory a)),
          a\<lparr>replay_memory := snd (route_dataset dataset (replay_memory a))\<rparr>)"
  "fst (route_dataset dataset (replay_memory a)) = None \<Longrightarrow>
   \<not> fit_condition (snd (route_dataset dataset (replay_memory a))) \<Longrightarrow>
     fit env rnd a dataset
       = (None, a\<lparr>replay_memory := snd (route_dataset dataset (replay_memory a))\<rparr>)"
  "fst (route_dataset dataset (replay_memory a)) = None \<Longrightarrow>
   fit_condition (snd (route_dataset dataset (replay_memory a))) \<Longrightarrow>
     fit env rnd a dataset
       = update_cycle env rnd
           (a\<lparr>replay_memory := snd (route_dataset dataset (replay_memory a))\<rparr>)"
  by (cases "route_dataset dataset (replay_memory a)"; auto simp: fit_def Let_def)+

lemma fit_padded:
  assumes "padded a"
  shows "padded (snd (fit env rnd a dataset))"
proof -
  let ?ar = "a\<lparr>replay_memory := snd (route_dataset dataset (replay_memory a))\<rparr>"
  have "padded ?ar = padded a" by (rule padded_cong) simp_all
  with assms have p: "padded ?ar" by simp
  show ?thesis
  proof (cases "fst (route_dataset dataset (replay_memory a)) = None")
    case False
    from fit_cases(1)[OF False] p show ?thesis by simp
  next
    case True
    show ?thesis
    proof (cases "fit_condition (snd (route_dataset dataset (replay_memory a)))")
      case False
      from fit_cases(2)[OF True False] p show ?thesis by simp
    next
      case c: True
      from assemble_padded[OF p] update_cycle_facts(1)[where rnd = rnd and a = ?ar and env = env]
      have "padded (snd (update_cycle env rnd ?ar))"
        by (simp add: same_scratch_padded)
      with fit_cases(3)[OF True c] show ?thesis by simp
    qed
  qed
qed

lemma fits_padded: "padded a \<Longrightarrow> padded (fits env a cs)"
  by (induction cs arbitrary: a) (simp_all add: fit_padded)

lemma zero_from_replicate: "zero_from k (replicate w 0)"
  by (simp add: zero_from_def)

lemma allocate_memory_padded: "padded (allocate_memory a)"
proof (rule paddedI)
  fix r assume "r < length (rows (state (allocate_memory a)))"
  then show "zero_from (width_in (allocate_memory a) (r div batch_size (allocate_memory a)))
               (rows (state (allocate_memory a)) ! r)"
    by (auto simp: allocate_memory_def Let_def np_zeros_squeeze_def zero_from_replicate
        split: if_splits)
next
  fix r assume "r < length (action (allocate_memory a))"
  then show "zero_from (width_act (allocate_memory a) (r div batch_size (allocate_memory a)))
               (action (allocate_memory a) ! r)"
    by (auto simp: allocate_memory_def Let_def zero_from_replicate)
next
  fix r assume "r < length (rows (next_state (allocate_memory a)))"
  then show "zero_from (width_in (allocate_memory a) (r div batch_size (allocate_memory a)))
               (rows (next_state (allocate_memory a)) ! r)"
    by (auto simp: allocate_memory_def Let_def np_zeros_squeeze_def zero_from_replicate
        split: if_splits)
next
  fix r assume "r < length (state_idxs (allocate_memory a))"
  then show "state_idxs (allocate_memory a) ! r = int (r div batch_size (allocate_memory a))
       \<or> ((r < length (rows (state (allocate_memory a)))
              \<longrightarrow> zero_from 0 (rows (state (allocate_memory a)) ! r))
           \<and> (r < length (action (allocate_memory a))
              \<longrightarrow> zero_from 0 (action (allocate_memory a) ! r)))"
    by (auto simp: allocate_memory_def Let_def np_zeros_squeeze_def zero_from_replicate
        split: if_splits)
next
  fix r assume "r < length (next_state_idxs (allocate_memory a))"
  then show "next_state_idxs (allocate_memory a) ! r = int (r div batch_size (allocate_memory a))
       \<or> (r < length (rows (next_state (allocate_memory a)))
              \<longrightarrow> zero_from 0 (rows (next_state (allocate_memory a)) ! r))"
    by (auto simp: allocate_memory_def Let_def np_zeros_squeeze_def zero_from_replicate
        split: if_splits)
qed

lemma init_padded: "SharedDDPG_init p = Inr a \<Longrightarrow> padded a"
  by (auto simp: SharedDDPG_init_def allocate_memory_padded split: if_splits)

lemma zero_from_width:
  assumes "zero_from (width_in a i) row"
  shows "zero_from (n_input_per_mdp a ! i) row"
  using assms by (cases "i < length (n_input_per_mdp a)")
    (auto simp: width_in_def intro: zero_from_mono)

lemma zero_from_width_act:
  assumes "zero_from (width_act a i) row"
  shows "zero_from (n_actions_per_head a ! i) row"
  using assms by (cases "i < length (n_actions_per_head a)")
    (auto simp: width_act_def intro: zero_from_mono)

lemma padded_tagged_rows:
  assumes p: "padded a"
  shows "r < length (state_idxs a) \<Longrightarrow> state_idxs a ! r = int i \<Longrightarrow>
           (r < length (rows (state a)) \<longrightarrow>
              zero_from (n_input_per_mdp a ! i) (rows (state a) ! r))
           \<and> (r < length (action a) \<longrightarrow>
                zero_from (n_actions_per_head a ! i) (action a ! r))"
    and "r < length (next_state_idxs a) \<Longrightarrow> next_state_idxs a ! r = int i \<Longrightarrow>
           (r < length (rows (next_state a)) \<longrightarrow>
              zero_from (n_input_per_mdp a ! i) (rows (next_state a) ! r))"
proof -
  note P = paddedD[OF p]
  show "(r < length (rows (state a)) \<longrightarrow>
              zero_from (n_input_per_mdp a ! i) (rows (state a) ! r))
           \<and> (r < length (action a) \<longrightarrow>
                zero_from (n_actions_per_head a ! i) (action a ! r))"
    if r: "r < length (state_idxs a)" and t: "state_idxs a ! r = int i"
  proof (cases "r div batch_size a = i")
    case True
    with P(1)[of r] P(2)[of r] show ?thesis
      by (auto intro: zero_from_width zero_from_width_act)
  next
    case False
    with P(4)[OF r] t show ?thesis
      by (auto intro: zero_from_mono)
  qed
  show "r < length (rows (next_state a)) \<longrightarrow>
              zero_from (n_input_per_mdp a ! i) (rows (next_state a) ! r)"
    if r: "r < length (next_state_idxs a)" and t: "next_state_idxs a ! r = int i"
  proof (cases "r div batch_size a = i")
    case True
    with P(3)[of r] show ?thesis
      by (auto intro: zero_from_width)
  next
    case False
    with P(5)[OF r] t show ?thesis
      by (auto intro: zero_from_mono)
  qed
qed

text \<open>
  C4. In every agent that \<open>__init__\<close> builds, and after any sequence of \<open>fit\<close> calls on it
  (whether they return or raise), every row of the combined batch that carries task
  index \<open>i\<close> is zero in all state entries from column \<open>n_input_per_mdp[i]\<close> on and in all
  action entries from column \<open>n_actions_per_head[i]\<close> on; the same holds for the next
  states with their own index array. The scratch arrays are allocated as zeros once and
  a block only ever receives writes to the leading columns of its own task.
\<close>

theorem padding_invariant:
  fixes env :: regressors and cs :: "((nat \<Rightarrow> nat \<Rightarrow> nat) \<times> transition list) list"
    and a0 :: agent
  assumes "SharedDDPG_init p = Inr a0"
  defines "a \<equiv> fits env a0 cs"
  shows "padded a
    \<and> (r < length (state_idxs a) \<and> state_idxs a ! r = int i \<longrightarrow>
         (r < length (rows (state a)) \<longrightarrow>
            (\<forall>c. n_input_per_mdp a ! i \<le> c \<and> c < length (rows (state a) ! r)
                 \<longrightarrow> rows (state a) ! r ! c = 0))
         \<and> (r < length (action a) \<longrightarrow>
              (\<forall>c. n_actions_per_head a ! i \<le> c \<and> c < length (action a ! r)
                   \<longrightarrow> action a ! r ! c = 0)))
    \<and> (r < length (next_state_idxs a) \<and> next_state_idxs a ! r = int i \<longrightarrow>
         (r < length (rows (next_state a)) \<longrightarrow>
            (\<forall>c. n_input_per_mdp a ! i \<le> c \<and> c < length (rows (next_state a) ! r)
                 \<longrightarrow> rows (next_state a) ! r ! c = 0)))"
proof -
  have p: "padded a"
    unfolding a_def using init_padded[OF assms(1)] by (rule fits_padded)
  from p padded_tagged_rows[OF p, of r i] show ?thesis
    unfolding zero_from_def by blast
qed


text \<open>
  After one \<open>fit\<close> on the example, row 1 belongs to task 0, whose observations have width
  2, and column 2 of its state row is zero.
\<close>

theorem padding_invariant_witness:
  "SharedDDPG_init example_params = Inr example_agent
   \<and> state_idxs (fits example_regressors example_agent [(example_draws, example_dataset)]) ! 1
       = int 0
   \<and> n_input_per_mdp (fits example_regressors example_agent [(example_draws, example_dataset)]) ! 0
       = 2
   \<and> rows (state (fits example_regressors example_agent
              [(example_draws, example_dataset)])) ! 1 ! 2 = 0"
proof -
  let ?a = "fits example_regressors example_agent [(example_draws, example_dataset)]"
  have v: "1 < length (state_idxs ?a)" "state_idxs ?a ! 1 = int 0"
    "1 < length (rows (state ?a))" "n_input_per_mdp ?a ! 0 = 2"
    "2 < length (rows (state ?a) ! 1)"
    by code_simp+
  from padding_invariant[OF example_init, of example_regressors
      "[(example_draws, example_dataset)]" 1 0] v(1,2,3)
  have "\<forall>c. n_input_per_mdp ?a ! 0 \<le> c \<and> c < length (rows (state ?a) ! 1)
             \<longrightarrow> rows (state ?a) ! 1 ! c = 0"
    by blast
  then have "rows (state ?a) ! 1 ! 2 = 0"
    using v(4,5) by simp
  with v example_init show ?thesis by simp
qed

text \<open>
  A cycle that runs to its end has assembled the batch and fitted the critic to
  \<open>critic_target\<close> of the assembled batch.
\<close>

lemma update_cycle_critic_fit:
  assumes "fst (update_cycle env rnd a) = None"
  shows "\<exists>q cw. fst (assemble rnd a) = None
           \<and> critic_target env (snd (assemble rnd a)) = Inr q
           \<and> critic_fit env (critic_approximator (snd (assemble rnd a)))
                 (state (snd (assemble rnd a))) (action (snd (assemble rnd a))) q
                 (state_idxs (snd (assemble rnd a))) = Some cw"
proof -
  obtain e1 a1 where asm: "assemble rnd a = (e1, a1)" by (cases "assemble rnd a")
  show ?thesis
  proof (cases e1)
    case (Some e)
    with asm assms show ?thesis by (simp add: update_cycle_def)
  next
    case None
    note e1 = None
    show ?thesis
    proof (cases "critic_target env a1")
      case (Inl e)
      with asm e1 assms show ?thesis by (simp add: update_cycle_def)
    next
      case (Inr q)
      show ?thesis
      proof (cases "critic_fit env (critic_approximator a1) (state a1) (action a1) q
                      (state_idxs a1)")
        case None
        with Inr asm e1 assms show ?thesis by (simp add: update_cycle_def)
      next
        case (Some cw)
        with Inr asm e1 show ?thesis by simp
      qed
    qed
  qed
qed



section \<open>Properties of the runner loop\<close>

lemma lifecycle_epoch:
  "filter lifecycle (calls (epoch ar ops n st)) =
     filter lifecycle (calls st)
       @ (if unfreeze_epoch ar \<le> n \<and> 0 < unfreeze_epoch ar then [UnfreezeShared] else [])
       @ [Learn, Evaluate, EpochInfo n]"
  by (simp add: epoch_def Let_def)

lemma lifecycle_epochs:
  "filter lifecycle (calls (foldl (\<lambda>s n. epoch ar ops n s) st ns)) =
     filter lifecycle (calls st)
       @ concat (map (\<lambda>n. (if unfreeze_epoch ar \<le> n \<and> 0 < unfreeze_epoch ar
                            then [UnfreezeShared] else []) @ [Learn, Evaluate, EpochInfo n]) ns)"
  by (induction ns arbitrary: st) (simp_all add: lifecycle_epoch)

lemma core_epoch: "core (epoch ar ops n st) = epoch_core ar ops (core st) n"
  by (simp add: epoch_def epoch_core_def Let_def)

lemma core_epochs:
  "core (foldl (\<lambda>s n. epoch ar ops n s) st ns) = foldl (epoch_core ar ops) (core st) ns"
  by (induction ns arbitrary: st) (simp_all add: core_epoch)

lemma count_unfreeze_epoch:
  "count_list (calls (epoch ar ops n st)) UnfreezeShared =
     count_list (calls st) UnfreezeShared
       + (if unfreeze_epoch ar \<le> n \<and> 0 < unfreeze_epoch ar then 1 else 0)"
  by (simp add: epoch_def Let_def)

lemma count_unfreeze_epochs:
  "count_list (calls (foldl (\<lambda>s n. epoch ar ops n s) st ns)) UnfreezeShared =
     count_list (calls st) UnfreezeShared
       + length (filter (\<lambda>n. unfreeze_epoch ar \<le> n \<and> 0 < unfreeze_epoch ar) ns)"
  by (induction ns arbitrary: st) (simp_all add: count_unfreeze_epoch)

lemma count_freeze_epoch:
  "count_list (calls (epoch ar ops n st)) FreezeShared = count_list (calls st) FreezeShared"
  by (simp add: epoch_def Let_def)

lemma count_freeze_epochs:
  "count_list (calls (foldl (\<lambda>s n. epoch ar ops n s) st ns)) FreezeShared =
     count_list (calls st) FreezeShared"
  by (induction ns arbitrary: st) (simp_all add: count_freeze_epoch)

lemma filter_ge_upto:
  assumes "1 \<le> t"
  shows "filter (\<lambda>n. t \<le> n) [1..e] = [t..e]"
proof (cases "t \<le> e")
  case True
  have split: "[1..e] = [1..t - 1] @ [t..e]"
    using assms True by (simp add: upto_split1)
  have "filter (\<lambda>n. t \<le> n) [1..t - 1] = []"
    by (auto simp: filter_empty_conv)
  moreover have "filter (\<lambda>n. t \<le> n) [t..e] = [t..e]"
    by (auto simp: filter_id_conv)
  ultimately show ?thesis
    by (simp add: split)
next
  case False
  then show ?thesis
    by (auto simp: filter_empty_conv)
qed

lemma experiment_loop_Inr:
  assumes "experiment_loop ar ops max_steps evaluation_frequency c = Inr (st, dumped)"
  shows "st = foldl (\<lambda>s n. epoch ar ops n s)
           (if 0 < unfreeze_epoch ar
            then \<lparr>core = op_freeze ops c, best_score_sum = None, best_weights = None,
                  calls = [FreezeShared, LogNumpy]\<rparr>
            else \<lparr>core = c, best_score_sum = None, best_weights = None, calls = [LogNumpy]\<rparr>)
           [1..max_steps div evaluation_frequency]"
    and "dumped = (if save_shared ar \<noteq> [] then Some (best_weights st) else None)"
  using assms by (auto simp: experiment_loop_def Let_def split: if_splits)

text \<open>
  C7, as the code has it. With an unfreeze threshold \<open>T > 0\<close> the shared weights are frozen
  once, before the learning phase of the first epoch, and \<open>unfreeze_shared_weights\<close> is
  called at the start of every epoch \<open>n\<close> with \<open>T \<le> n\<close>, before that epoch's learning
  phase (first at epoch \<open>T\<close>), that is \<open>E - T + 1\<close> times in a run of \<open>E \<ge> T\<close> epochs and
  never when \<open>T > E\<close>. With \<open>T \<le> 0\<close> neither is ever called. The first conjunct is the
  order of the calls, the second the order in which their effects reach the joint state
  of agent and core.
\<close>

theorem unfreeze_every_epoch_from_threshold:
  assumes "experiment_loop ar ops max_steps evaluation_frequency c = Inr (st, dumped)"
  shows "filter lifecycle (calls st) =
           (if 0 < unfreeze_epoch ar then [FreezeShared] else [])
           @ concat (map (\<lambda>n. (if unfreeze_epoch ar \<le> n \<and> 0 < unfreeze_epoch ar
                                then [UnfreezeShared] else [])
                               @ [Learn, Evaluate, EpochInfo n])
                      [1..max_steps div evaluation_frequency])
         \<and> core st =
             foldl (\<lambda>s n. snd (op_evaluate ops (op_learn ops
                      (if unfreeze_epoch ar \<le> n \<and> 0 < unfreeze_epoch ar
                       then op_unfreeze ops s else s))))
               (if 0 < unfreeze_epoch ar then op_freeze ops c else c)
               [1..max_steps div evaluation_frequency]
         \<and> count_list (calls st) FreezeShared = (if 0 < unfreeze_epoch ar then 1 else 0)
         \<and> count_list (calls st) UnfreezeShared =
             (if 0 < unfreeze_epoch ar
              then nat (max_steps div evaluation_frequency - unfreeze_epoch ar + 1) else 0)"
proof -
  note st = experiment_loop_Inr(1)[OF assms]
  have trace: "filter lifecycle (calls st) =
           (if 0 < unfreeze_epoch ar then [FreezeShared] else [])
           @ concat (map (\<lambda>n. (if unfreeze_epoch ar \<le> n \<and> 0 < unfreeze_epoch ar
                                then [UnfreezeShared] else [])
                               @ [Learn, Evaluate, EpochInfo n])
                      [1..max_steps div evaluation_frequency])"
    unfolding st lifecycle_epochs by simp
  have "core st = foldl (epoch_core ar ops)
               (if 0 < unfreeze_epoch ar then op_freeze ops c else c)
               [1..max_steps div evaluation_frequency]"
    unfolding st core_epochs by simp
  then have state: "core st =
             foldl (\<lambda>s n. snd (op_evaluate ops (op_learn ops
                      (if unfreeze_epoch ar \<le> n \<and> 0 < unfreeze_epoch ar
                       then op_unfreeze ops s else s))))
               (if 0 < unfreeze_epoch ar then op_freeze ops c else c)
               [1..max_steps div evaluation_frequency]"
    unfolding epoch_core_def .
  have frz: "count_list (calls st) FreezeShared = (if 0 < unfreeze_epoch ar then 1 else 0)"
    unfolding st count_freeze_epochs by simp
  have unf: "count_list (calls st) UnfreezeShared =
             (if 0 < unfreeze_epoch ar
              then nat (max_steps div evaluation_frequency - unfreeze_epoch ar + 1) else 0)"
  proof (cases "0 < unfreeze_epoch ar")
    case True
    then have "filter (\<lambda>n. unfreeze_epoch ar \<le> n \<and> 0 < unfreeze_epoch ar)
                 [1..max_steps div evaluation_frequency]
               = [unfreeze_epoch ar..max_steps div evaluation_frequency]"
      using filter_ge_upto[of "unfreeze_epoch ar" "max_steps div evaluation_frequency"]
      by simp
    then show ?thesis
      unfolding st count_unfreeze_epochs using True by simp
  next
    case False
    then show ?thesis
      unfolding st count_unfreeze_epochs by simp
  qed
  from trace state frz unf show ?thesis by blast
qed

text \<open>
  Threshold 2 and three epochs on the recording collaborator: the state ends as the list
  of the operations it has seen, frozen first, one learning phase and evaluation without
  unfreeze, then an unfreeze ahead of the learning phase of epochs 2 and 3.
\<close>

theorem unfreeze_every_epoch_from_threshold_witness:
  "experiment_loop \<lparr>unfreeze_epoch = 2, save_shared = ''best.pkl'', save = False\<rparr>
      recording_ops 3 1 []
    = Inr (\<lparr>core = [FreezeShared, Learn, Evaluate,
                    UnfreezeShared, Learn, Evaluate,
                    UnfreezeShared, Learn, Evaluate],
            best_score_sum = Some 1, best_weights = Some 9,
            calls = [FreezeShared, LogNumpy,
                     Learn, Evaluate, EpochInfo 1, GetShared, LogNumpy,
                     UnfreezeShared, Learn, Evaluate, EpochInfo 2, GetShared, LogNumpy,
                     UnfreezeShared, Learn, Evaluate, EpochInfo 3, GetShared, LogNumpy]\<rparr>,
           Some (Some 9))
   \<and> filter lifecycle [FreezeShared, LogNumpy,
                     Learn, Evaluate, EpochInfo 1, GetShared, LogNumpy,
                     UnfreezeShared, Learn, Evaluate, EpochInfo 2, GetShared, LogNumpy,
                     UnfreezeShared, Learn, Evaluate, EpochInfo 3, GetShared, LogNumpy]
       = [FreezeShared, Learn, Evaluate, EpochInfo 1,
          UnfreezeShared, Learn, Evaluate, EpochInfo 2,
          UnfreezeShared, Learn, Evaluate, EpochInfo 3]
   \<and> count_list [FreezeShared, LogNumpy,
                     Learn, Evaluate, EpochInfo 1, GetShared, LogNumpy,
                     UnfreezeShared, Learn, Evaluate, EpochInfo 2, GetShared, LogNumpy,
                     UnfreezeShared, Learn, Evaluate, EpochInfo 3, GetShared, LogNumpy]
        UnfreezeShared = nat (3 div 1 - 2 + 1)"
proof -
  have run: "experiment_loop \<lparr>unfreeze_epoch = 2, save_shared = ''best.pkl'', save = False\<rparr>
      recording_ops 3 1 []
    = Inr (\<lparr>core = [FreezeShared, Learn, Evaluate,
                    UnfreezeShared, Learn, Evaluate,
                    UnfreezeShared, Learn, Evaluate],
            best_score_sum = Some 1, best_weights = Some 9,
            calls = [FreezeShared, LogNumpy,
                     Learn, Evaluate, EpochInfo 1, GetShared, LogNumpy,
                     UnfreezeShared, Learn, Evaluate, EpochInfo 2, GetShared, LogNumpy,
                     UnfreezeShared, Learn, Evaluate, EpochInfo 3, GetShared, LogNumpy]\<rparr>,
           Some (Some 9))"
    by code_simp
  have e: "[1..3 div 1] = [1, 2, 3::int]"
    by code_simp
  from unfreeze_every_epoch_from_threshold[OF run] have
    "filter lifecycle [FreezeShared, LogNumpy,
                     Learn, Evaluate, EpochInfo 1, GetShared, LogNumpy,
                     UnfreezeShared, Learn, Evaluate, EpochInfo 2, GetShared, LogNumpy,
                     UnfreezeShared, Learn, Evaluate, EpochInfo 3, GetShared, LogNumpy]
       = [FreezeShared, Learn, Evaluate, EpochInfo 1,
          UnfreezeShared, Learn, Evaluate, EpochInfo 2,
          UnfreezeShared, Learn, Evaluate, EpochInfo 3]"
    and "count_list [FreezeShared, LogNumpy,
                     Learn, Evaluate, EpochInfo 1, GetShared, LogNumpy,
                     UnfreezeShared, Learn, Evaluate, EpochInfo 2, GetShared, LogNumpy,
                     UnfreezeShared, Learn, Evaluate, EpochInfo 3, GetShared, LogNumpy]
        UnfreezeShared = nat (3 div 1 - 2 + 1)"
    unfolding e by simp_all
  with run show ?thesis by blast
qed

text \<open>
  The claim's "exactly one time" fails: with threshold 1 and two epochs the loop calls
  \<open>unfreeze_shared_weights\<close> in both epochs.
\<close>

theorem unfreeze_called_twice:
  "count_list (run_calls \<lparr>unfreeze_epoch = 1, save_shared = [], save = False\<rparr>
      counting_ops 2 1 0) UnfreezeShared = 2"
  by code_simp

text \<open>
  C8, as the code has it. Tracking is gated by \<open>args.save_shared\<close>: when a file name is
  given, after the evaluation of every epoch of the loop a score sum at least the best so
  far (ties included) replaces the best sum and stores a fresh export of the shared
  weights, and any smaller sum changes neither; when none is given, neither is ever
  changed. At the end of the run the best bundle is dumped exactly when a file name is
  given.
\<close>

theorem best_snapshot_tracking:
  "(save_shared ar \<noteq> [] \<and> ge_best (epoch_score ar ops n st) (best_score_sum st) \<longrightarrow>
      best_score_sum (epoch ar ops n st) = Some (epoch_score ar ops n st)
      \<and> best_weights (epoch ar ops n st) = Some (op_get_shared ops (core (epoch ar ops n st))))
   \<and> (\<not> (save_shared ar \<noteq> [] \<and> ge_best (epoch_score ar ops n st) (best_score_sum st)) \<longrightarrow>
        best_score_sum (epoch ar ops n st) = best_score_sum st
        \<and> best_weights (epoch ar ops n st) = best_weights st)
   \<and> (experiment_loop ar ops max_steps evaluation_frequency c = Inr (fin, dumped) \<longrightarrow>
        dumped = (if save_shared ar \<noteq> [] then Some (best_weights fin) else None))"
proof -
  have "experiment_loop ar ops max_steps evaluation_frequency c = Inr (fin, dumped) \<Longrightarrow>
        dumped = (if save_shared ar \<noteq> [] then Some (best_weights fin) else None)"
    by (rule experiment_loop_Inr(2))
  then show ?thesis
    by (auto simp: epoch_def epoch_score_def Let_def)
qed

text \<open>A tie with the best sum 2 replaces the stored bundle 7 by a fresh export.\<close>

theorem best_snapshot_tracking_witness:
  "best_score_sum (epoch \<lparr>unfreeze_epoch = 0, save_shared = ''best.pkl'', save = False\<rparr>
      counting_ops 1
      \<lparr>core = 0, best_score_sum = Some 2, best_weights = Some 7, calls = []\<rparr>) = Some 2
   \<and> best_weights (epoch \<lparr>unfreeze_epoch = 0, save_shared = ''best.pkl'', save = False\<rparr>
      counting_ops 1
      \<lparr>core = 0, best_score_sum = Some 2, best_weights = Some 7, calls = []\<rparr>) = Some 1"
proof -
  have g: "ge_best (epoch_score \<lparr>unfreeze_epoch = 0, save_shared = ''best.pkl'', save = False\<rparr>
      counting_ops 1 \<lparr>core = 0, best_score_sum = Some 2, best_weights = Some 7, calls = []\<rparr>)
      (Some 2)"
    by (simp add: ge_best_def epoch_score_def counting_ops_def)
  have c: "core (epoch \<lparr>unfreeze_epoch = 0, save_shared = ''best.pkl'', save = False\<rparr>
      counting_ops 1
      \<lparr>core = 0, best_score_sum = Some 2, best_weights = Some 7, calls = []\<rparr>) = 1"
    by (simp add: epoch_def counting_ops_def Let_def)
  have s: "epoch_score \<lparr>unfreeze_epoch = 0, save_shared = ''best.pkl'', save = False\<rparr>
      counting_ops 1 \<lparr>core = 0, best_score_sum = Some 2, best_weights = Some 7, calls = []\<rparr>
      = 2"
    by (simp add: epoch_score_def counting_ops_def)
  from best_snapshot_tracking[of
      "\<lparr>unfreeze_epoch = 0, save_shared = ''best.pkl'', save = False\<rparr>" counting_ops 1
      "\<lparr>core = 0, best_score_sum = Some 2, best_weights = Some 7, calls = []\<rparr>"] g c s
  show ?thesis
    by (simp add: counting_ops_def)
qed

text \<open>
  The claim's unconditional replacement fails: without \<open>--save-shared\<close> an epoch whose
  score sum beats the best so far stores nothing.
\<close>

theorem best_not_tracked_without_save_shared:
  "ge_best (epoch_score \<lparr>unfreeze_epoch = 0, save_shared = [], save = False\<rparr> counting_ops 1
      \<lparr>core = 0, best_score_sum = None, best_weights = None, calls = []\<rparr>) None
   \<and> best_weights (epoch \<lparr>unfreeze_epoch = 0, save_shared = [], save = False\<rparr> counting_ops 1
      \<lparr>core = 0, best_score_sum = None, best_weights = None, calls = []\<rparr>) = None"
  by (simp add: epoch_def epoch_score_def counting_ops_def ge_best_def Let_def)

end
